theory Spec2Isabelle
  imports Complex_Main "HOL-Library.Word" "HOL-Library.AList"
begin

unbundle bit_operations_syntax

section \<open>Bytes and little-endian reads\<close>

text \<open>
  A Python \<open>bytes\<close> value is a list of 8-bit words. Python integers are unbounded, so
  every value that the source computes with is a \<open>nat\<close> (offsets, counts, sizes) or an
  \<open>int\<close> (where the source can go negative); the values read from the buffer keep
  their width where the source only does bit operations on them.
\<close>

type_synonym byte = "8 word"

datatype error = StructError | ValueError | KeyError | RecursionError

section \<open>CompactBitmask declarations: \<open>vertex_stride_from_decl\<close>\<close>

text \<open>The dictionary lookup \<open>{...}.get(base_sel, 0)\<close>.\<close>

definition base_table :: "32 word \<Rightarrow> nat option" where
  "base_table base_sel =
     (if base_sel = 0x0002 then Some 12
      else if base_sel = 0x0004 then Some 16
      else if base_sel = 0x0006 then Some 16
      else if base_sel = 0x0008 then Some 20
      else if base_sel = 0x000A then Some 24
      else if base_sel = 0x000C then Some 28
      else if base_sel = 0x000E then Some 32
      else None)"

text \<open>
  The loop \<open>for _ in range(uv_count)\<close> of the branch with a non-zero selector: the state is
  the remaining selector bits and the stride so far.
\<close>

fun uv_loop :: "nat \<Rightarrow> 32 word \<Rightarrow> nat \<Rightarrow> nat" where
  "uv_loop 0 uv_fmt_bits stride = stride"
| "uv_loop (Suc n) uv_fmt_bits stride =
     (let fmt = uv_fmt_bits AND 3;
          stride' = (if fmt = 0 then stride + 8
                     else if fmt = 1 then stride + 12
                     else if fmt = 2 then stride + 16
                     else stride + 4)
      in uv_loop n (drop_bit 2 uv_fmt_bits) stride')"

definition vertex_stride_from_decl :: "32 word \<Rightarrow> nat" where
  "vertex_stride_from_decl decl =
     (let base_sel = decl AND 0x400E;
          base = (case base_table base_sel of Some b \<Rightarrow> b | None \<Rightarrow> 0);
          stride = base;
          stride = (if decl AND 0x10 \<noteq> 0 then stride + 12 else stride);
          stride = (if decl AND 0x20 \<noteq> 0 then stride + 4 else stride);
          stride = (if decl AND 0x40 \<noteq> 0 then stride + 4 else stride);
          stride = (if decl AND 0x80 \<noteq> 0 then stride + 4 else stride);
          uv_count = unat (drop_bit 8 decl AND 0xF);
          uv_fmt_bits = drop_bit 16 decl AND 0xFFFF
      in if uv_fmt_bits \<noteq> 0 then uv_loop uv_count uv_fmt_bits stride
         else stride + 8 * uv_count)"

subsection \<open>The stride as the specification words it\<close>

definition spec_base :: "32 word \<Rightarrow> nat" where
  "spec_base d =
     (let m = d AND 0x400E in
      if m = 0x0002 then 12 else if m = 0x0004 then 16 else if m = 0x0006 then 16
      else if m = 0x0008 then 20 else if m = 0x000A then 24 else if m = 0x000C then 28
      else if m = 0x000E then 32 else 0)"

definition spec_opt :: "32 word \<Rightarrow> nat" where
  "spec_opt d = (if bit d 4 then 12 else 0) + (if bit d 5 then 4 else 0)
              + (if bit d 6 then 4 else 0) + (if bit d 7 then 4 else 0)"

definition selector_cost :: "nat \<Rightarrow> nat" where
  "selector_cost c = (if c = 0 then 8 else if c = 1 then 12 else if c = 2 then 16 else 4)"

text \<open>
  Slot \<open>k\<close> has the two selector bits \<open>16 + 2k\<close> and \<open>17 + 2k\<close> of the declaration: the
  selector is consumed from its low end.
\<close>

definition slot_code :: "32 word \<Rightarrow> nat \<Rightarrow> nat" where
  "slot_code d k = unat (drop_bit (16 + 2 * k) d AND 3)"

definition spec_uv :: "32 word \<Rightarrow> nat" where
  "spec_uv d =
     (let n = unat (drop_bit 8 d AND 0xF) in
      if drop_bit 16 d = 0 then 8 * n
      else (\<Sum>k<n. selector_cost (slot_code d k)))"

section \<open>Python floats\<close>

text \<open>
  A Python float is an IEEE-754 binary64 value: a finite value with its sign bit kept apart
  (so that \<open>-0.0\<close> and \<open>0.0\<close> differ), an infinity, or a NaN. The magnitude of a finite value
  is a real number. Multiplication and the addition of non-negative values are the exact
  operations on the magnitudes; binary64 agrees with them whenever the exact result is a
  binary64 value (\<open>is_binary64\<close> below), which is so for every operation of
  \<open>half_to_float\<close> (lemma \<open>half_to_float_exact\<close>). Subtraction rounds in general (the
  \<open>1.0 - v\<close> of the V flip), so it is not defined here: the decoders take it as the
  parameter \<open>fsub\<close>.
\<close>

datatype pyfloat = Finite bool real | Infinity bool | NaN

fun fmul :: "pyfloat \<Rightarrow> pyfloat \<Rightarrow> pyfloat" where
  "fmul (Finite s1 m1) (Finite s2 m2) = Finite (s1 \<noteq> s2) (m1 * m2)"
| "fmul (Finite s1 m1) (Infinity s2) = (if m1 = 0 then NaN else Infinity (s1 \<noteq> s2))"
| "fmul (Infinity s1) (Finite s2 m2) = (if m2 = 0 then NaN else Infinity (s1 \<noteq> s2))"
| "fmul (Infinity s1) (Infinity s2) = Infinity (s1 \<noteq> s2)"
| "fmul NaN y = NaN"
| "fmul x NaN = NaN"

text \<open>\<open>abs(x) <= c\<close> for a finite bound \<open>c\<close>: false for an infinity and for a NaN.\<close>

fun fabs_le :: "pyfloat \<Rightarrow> real \<Rightarrow> bool" where
  "fabs_le (Finite s m) c = (m \<le> c)"
| "fabs_le (Infinity s) c = False"
| "fabs_le NaN c = False"

definition is_binary64 :: "real \<Rightarrow> bool" where
  "is_binary64 x = (\<exists>(m::int) (e::int). \<bar>m\<bar> < 2 ^ 53 \<and> - 1074 \<le> e \<and> e \<le> 971 \<and>
                      x = of_int m * 2 powi e)"

text \<open>
  The value that \<open>struct.unpack("<f", ...)\<close> gives for a 32-bit pattern: the binary32 value,
  which is a binary64 value.
\<close>

definition f32_to_float :: "32 word \<Rightarrow> pyfloat" where
  "f32_to_float w =
     (let s = bit w 31; e = unat (drop_bit 23 w AND 0xFF); f = unat (w AND 0x7FFFFF) in
      if e = 0 then Finite s (real f / 2 ^ 23 * 2 powi (- 126))
      else if e = 255 then (if f = 0 then Infinity s else NaN)
      else Finite s ((1 + real f / 2 ^ 23) * 2 powi (int e - 127)))"

section \<open>\<open>half_to_float\<close>\<close>

definition half_to_float :: "16 word \<Rightarrow> pyfloat" where
  "half_to_float h =
     (let s = drop_bit 15 h AND 1;
          e = drop_bit 10 h AND 0x1F;
          f = h AND 0x3FF
      in if e = 0 then
           (if f = 0 then (if s \<noteq> 0 then Finite True 0 else Finite False 0)
            else fmul (fmul (if s \<noteq> 0 then Finite True 1 else Finite False 1)
                            (Finite False (real (unat f) / 1024)))
                      (Finite False (2 powi (- 14))))
         else if e = 31 then
           (if f = 0 then (if s \<noteq> 0 then Infinity True else Infinity False) else NaN)
         else fmul (fmul (if s \<noteq> 0 then Finite True 1 else Finite False 1)
                         (Finite False (1 + real (unat f) / 1024)))
                   (Finite False (2 powi (int (unat e) - 15))))"

subsection \<open>IEEE-754 binary16, as the standard words it\<close>

text \<open>
  A binary16 datum has the sign \<open>S\<close> (bit 15), the biased exponent \<open>E\<close> (bits 10 to 14) and
  the trailing significand \<open>T\<close> (bits 0 to 9). With \<open>emin = -14\<close>, bias 15 and precision 11:
  \<open>E = 31\<close> is an infinity when \<open>T = 0\<close> and a NaN otherwise; \<open>E = 0\<close> is
  \<open>(-1)^S * 2^emin * (T * 2^(-10))\<close>, a zero or a subnormal; every other datum is
  \<open>(-1)^S * 2^(E - 15) * (1 + T * 2^(-10))\<close>. The values are written with the integral
  significand \<open>1024 + T\<close>.
\<close>

definition binary16_value :: "16 word \<Rightarrow> pyfloat" where
  "binary16_value h =
     (let S = bit h 15; E = unat (take_bit 5 (drop_bit 10 h)); T = unat (take_bit 10 h) in
      if E = 31 then (if T = 0 then Infinity S else NaN)
      else if E = 0 then Finite S (real T * 2 powi (- 24))
      else Finite S (real (1024 + T) * 2 powi (int E - 25)))"

text \<open>
  Binary64 subtraction where the exact difference is a binary64 value (no rounding step):
  it is what \<open>fsub\<close> stands for at the concrete inputs below. A zero difference is \<open>+0.0\<close>
  unless it is \<open>(-0.0) - (+0.0)\<close>.
\<close>

fun fsub_exact :: "pyfloat \<Rightarrow> pyfloat \<Rightarrow> pyfloat" where
  "fsub_exact (Finite s1 m1) (Finite s2 m2) =
     (let d = (if s1 then - m1 else m1) - (if s2 then - m2 else m2) in
      if d < 0 then Finite True (- d) else if d > 0 then Finite False d
      else Finite (s1 \<and> \<not> s2) 0)"
| "fsub_exact (Finite s1 m1) (Infinity s2) = Infinity (\<not> s2)"
| "fsub_exact (Infinity s1) (Finite s2 m2) = Infinity s1"
| "fsub_exact (Infinity s1) (Infinity s2) = (if s1 = s2 then NaN else Infinity s1)"
| "fsub_exact NaN y = NaN"
| "fsub_exact x NaN = NaN"

section \<open>Reading from a buffer\<close>

text \<open>
  \<open>struct.unpack_from(fmt, buffer, offset)\<close> raises \<open>struct.error\<close> unless the buffer holds
  \<open>calcsize(fmt)\<close> bytes from \<open>offset\<close> on. All the formats of the source are little-endian
  (\<open><\<close>), without padding. Offsets are never negative where the source reads.
\<close>

definition ebind :: "error + 'a \<Rightarrow> ('a \<Rightarrow> error + 'b) \<Rightarrow> error + 'b" where
  "ebind m f = (case m of Inl e \<Rightarrow> Inl e | Inr x \<Rightarrow> f x)"

fun le_nat :: "byte list \<Rightarrow> nat" where
  "le_nat [] = 0"
| "le_nat (b # bs) = unat b + 256 * le_nat bs"

definition unpack_from :: "nat \<Rightarrow> byte list \<Rightarrow> nat \<Rightarrow> error + byte list" where
  "unpack_from sz buffer offset =
     (if offset + sz \<le> length buffer then Inr (take sz (drop offset buffer))
      else Inl StructError)"

text \<open>\<open>count\<close> consecutive little-endian fields of \<open>width\<close> bytes each.\<close>

fun split_le :: "nat \<Rightarrow> nat \<Rightarrow> byte list \<Rightarrow> nat list" where
  "split_le width 0 bs = []"
| "split_le width (Suc count) bs = le_nat (take width bs) # split_le width count (drop width bs)"

definition unpack_I :: "byte list \<Rightarrow> nat \<Rightarrow> error + nat" where
  "unpack_I buffer offset = ebind (unpack_from 4 buffer offset) (\<lambda>bs. Inr (le_nat bs))"

definition unpack_H :: "byte list \<Rightarrow> nat \<Rightarrow> error + nat" where
  "unpack_H buffer offset = ebind (unpack_from 2 buffer offset) (\<lambda>bs. Inr (le_nat bs))"

definition unpack_Hs :: "nat \<Rightarrow> byte list \<Rightarrow> nat \<Rightarrow> error + nat list" where
  "unpack_Hs count buffer offset =
     ebind (unpack_from (2 * count) buffer offset) (\<lambda>bs. Inr (split_le 2 count bs))"

definition f32_le :: "byte list \<Rightarrow> pyfloat" where
  "f32_le bs = f32_to_float (word_of_nat (le_nat bs))"

type_synonym vec2 = "pyfloat \<times> pyfloat"
type_synonym vec3 = "pyfloat \<times> pyfloat \<times> pyfloat"

definition unpack_2f :: "byte list \<Rightarrow> nat \<Rightarrow> error + vec2" where
  "unpack_2f buffer offset =
     ebind (unpack_from 8 buffer offset)
       (\<lambda>bs. Inr (f32_le (take 4 bs), f32_le (take 4 (drop 4 bs))))"

definition unpack_3f :: "byte list \<Rightarrow> nat \<Rightarrow> error + vec3" where
  "unpack_3f buffer offset =
     ebind (unpack_from 12 buffer offset)
       (\<lambda>bs. Inr (f32_le (take 4 bs), f32_le (take 4 (drop 4 bs)), f32_le (take 4 (drop 8 bs))))"

section \<open>The fixed-stride-32 scan: \<open>scan_scn0_stride32_mesh_blocks\<close>\<close>

text \<open>The dictionary that the scan appends for a match has nine fixed keys: a record.\<close>

record block =
  b_off :: nat
  b_vcount :: nat
  b_vb_off :: nat
  b_vb_size :: nat
  b_tag :: nat
  b_ib_bytes :: nat
  b_ib_off :: nat
  b_end_off :: nat
  b_stride :: nat

text \<open>
  The inner loop \<open>for i in range(sample)\<close>: it leaves \<open>ok\<close> true unless it breaks at an index
  that is not below \<open>vcount\<close>.
\<close>

fun sample_loop :: "byte list \<Rightarrow> nat \<Rightarrow> nat \<Rightarrow> nat list \<Rightarrow> error + bool" where
  "sample_loop payload ib_off vcount [] = Inr True"
| "sample_loop payload ib_off vcount (i # is) =
     (case unpack_H payload (ib_off + i * 2) of
        Inl e \<Rightarrow> Inl e
      | Inr idx \<Rightarrow> if idx \<ge> vcount then Inr False else sample_loop payload ib_off vcount is)"

text \<open>
  The body of the loop over \<open>off\<close>, after the \<open>break\<close> test: \<open>None\<close> for a \<open>continue\<close>, the
  appended dictionary otherwise.
\<close>

definition scan_step :: "byte list \<Rightarrow> nat \<Rightarrow> error + block option" where
  "scan_step payload off =
     (let n = length payload in
      ebind (unpack_I payload off) (\<lambda>vcount.
      if vcount < 3 \<or> vcount > 2000000 then Inr None else
      let vb_off = off + 4; vb_size = vcount * 32; tag_off = vb_off + vb_size in
      if tag_off + 8 > n then Inr None else
      ebind (unpack_I payload tag_off) (\<lambda>tag.
      if tag \<noteq> 101 \<and> tag \<noteq> 102 then Inr None else
      ebind (unpack_I payload (tag_off + 4)) (\<lambda>ib_bytes.
      if ib_bytes \<le> 0 \<or> ib_bytes > 500000000 \<or> ib_bytes mod 2 \<noteq> 0 then Inr None else
      let ib_off = tag_off + 8; ib_end = ib_off + ib_bytes in
      if ib_end > n then Inr None else
      let idx_count = ib_bytes div 2 in
      if idx_count < 3 \<or> idx_count mod 3 \<noteq> 0 then Inr None else
      ebind (unpack_3f payload vb_off) (\<lambda>(x, y, z).
      if \<not> (fabs_le x 200000 \<and> fabs_le y 200000 \<and> fabs_le z 200000) then Inr None else
      let sample = min 10 idx_count in
      ebind (sample_loop payload ib_off vcount [0..<sample]) (\<lambda>ok.
      if \<not> ok then Inr None else
      Inr (Some \<lparr>b_off = off, b_vcount = vcount, b_vb_off = vb_off, b_vb_size = vb_size,
                  b_tag = tag, b_ib_bytes = ib_bytes, b_ib_off = ib_off, b_end_off = ib_end,
                  b_stride = 32\<rparr>)))))))"

fun scan_loop :: "byte list \<Rightarrow> nat list \<Rightarrow> block list \<Rightarrow> error + block list" where
  "scan_loop payload [] out = Inr out"
| "scan_loop payload (off # offs) out =
     (if off + 4 > length payload then Inr out
      else case scan_step payload off of
             Inl e \<Rightarrow> Inl e
           | Inr None \<Rightarrow> scan_loop payload offs out
           | Inr (Some b) \<Rightarrow> scan_loop payload offs (out @ [b]))"

text \<open>The offsets of \<open>range(max(0, start), max(0, scan_end - 16))\<close>, with \<open>scan_end = n\<close>.\<close>

definition scan_window :: "byte list \<Rightarrow> int \<Rightarrow> nat list" where
  "scan_window payload start =
     [nat (max 0 start) ..< nat (max 0 (int (length payload) - 16))]"

definition scan_scn0_stride32_mesh_blocks :: "byte list \<Rightarrow> int \<Rightarrow> error + block list" where
  "scan_scn0_stride32_mesh_blocks payload start = scan_loop payload (scan_window payload start) []"

subsection \<open>The accepted blocks, as the specification words them\<close>

text \<open>The fields at an offset, read without a bounds check (0 bytes read beyond the end).\<close>

definition u32v :: "byte list \<Rightarrow> nat \<Rightarrow> nat" where
  "u32v p off = le_nat (take 4 (drop off p))"

definition u16v :: "byte list \<Rightarrow> nat \<Rightarrow> nat" where
  "u16v p off = le_nat (take 2 (drop off p))"

definition f32v :: "byte list \<Rightarrow> nat \<Rightarrow> pyfloat" where
  "f32v p off = f32_le (take 4 (drop off p))"

definition block_at :: "byte list \<Rightarrow> nat \<Rightarrow> block" where
  "block_at p off =
     (let vcount = u32v p off; tag_off = off + 4 + vcount * 32; ib_bytes = u32v p (tag_off + 4) in
      \<lparr>b_off = off, b_vcount = vcount, b_vb_off = off + 4, b_vb_size = vcount * 32,
       b_tag = u32v p tag_off, b_ib_bytes = ib_bytes, b_ib_off = tag_off + 8,
       b_end_off = tag_off + 8 + ib_bytes, b_stride = 32\<rparr>)"

definition stride32_ok :: "byte list \<Rightarrow> nat \<Rightarrow> bool" where
  "stride32_ok p off =
     (let vcount = u32v p off; tag_off = off + 4 + vcount * 32; tag = u32v p tag_off;
          ib_bytes = u32v p (tag_off + 4); ib_off = tag_off + 8
      in 3 \<le> vcount \<and> vcount \<le> 2000000
       \<and> (tag = 101 \<or> tag = 102)
       \<and> 0 < ib_bytes \<and> even ib_bytes \<and> ib_bytes \<le> 500000000
       \<and> 3 \<le> ib_bytes div 2 \<and> 3 dvd ib_bytes div 2
       \<and> ib_off + ib_bytes \<le> length p
       \<and> fabs_le (f32v p (off + 4)) 200000 \<and> fabs_le (f32v p (off + 8)) 200000
       \<and> fabs_le (f32v p (off + 12)) 200000
       \<and> list_all (\<lambda>i. u16v p (ib_off + 2 * i) < vcount) [0..<min 10 (ib_bytes div 2)])"

section \<open>The mesh and the fixed-stride-32 decoder\<close>

text \<open>
  The \<open>Mesh\<close> dataclass. Its dictionaries are association lists in insertion order:
  a subset entry is a \<open>Dict[str, int]\<close>, a material set a \<open>Dict[str, str]\<close>.
\<close>

type_synonym subset_entry = "(string \<times> nat) list"

record mesh =
  mesh_name :: string
  mesh_decl :: nat
  mesh_vertices :: "vec3 list"
  mesh_normals :: "vec3 option list"
  mesh_uvs :: "vec2 option list"
  mesh_faces :: "(nat \<times> nat \<times> nat) list"
  mesh_maps :: "(string \<times> string) list"
  mesh_subsets :: "subset_entry list"
  mesh_material_sets :: "(string \<times> string) list list"

text \<open>The format specification \<open>:x\<close>: lower-case hexadecimal without a prefix.\<close>

definition hex_digit :: "nat \<Rightarrow> char" where
  "hex_digit d = ''0123456789abcdef'' ! d"

function hex_str :: "nat \<Rightarrow> string" where
  "hex_str n = (if n < 16 then [hex_digit n] else hex_str (n div 16) @ [hex_digit (n mod 16)])"
  by pat_completeness auto
termination
  by (relation "measure id") auto

declare hex_str.simps [simp del]

text \<open>One iteration of the loop over the vertices: the three tuples that it appends.\<close>

definition decode_vertex32 ::
  "(pyfloat \<Rightarrow> pyfloat \<Rightarrow> pyfloat) \<Rightarrow> byte list \<Rightarrow> nat \<Rightarrow> bool \<Rightarrow> bool \<Rightarrow> nat
   \<Rightarrow> error + (vec3 \<times> vec3 \<times> vec2)" where
  "decode_vertex32 fsub payload vb_off flip_v swap_yz i =
     (let base = vb_off + i * 32 in
      ebind (unpack_3f payload base) (\<lambda>(x, y, z).
      ebind (unpack_3f payload (base + 12)) (\<lambda>(nx, ny, nz).
      ebind (unpack_2f payload (base + 24)) (\<lambda>(u, v).
      let (y, z) = (if swap_yz then (z, y) else (y, z));
          (ny, nz) = (if swap_yz then (nz, ny) else (ny, nz));
          v = (if flip_v then fsub (Finite False 1) v else v)
      in Inr ((x, y, z), (nx, ny, nz), (u, v))))))"

fun decode_vertices32 ::
  "(pyfloat \<Rightarrow> pyfloat \<Rightarrow> pyfloat) \<Rightarrow> byte list \<Rightarrow> nat \<Rightarrow> bool \<Rightarrow> bool \<Rightarrow> nat list
   \<Rightarrow> vec3 list \<times> vec3 option list \<times> vec2 option list
   \<Rightarrow> error + (vec3 list \<times> vec3 option list \<times> vec2 option list)" where
  "decode_vertices32 fsub payload vb_off flip_v swap_yz [] acc = Inr acc"
| "decode_vertices32 fsub payload vb_off flip_v swap_yz (i # is) (vertices, normals, uvs) =
     (case decode_vertex32 fsub payload vb_off flip_v swap_yz i of
        Inl e \<Rightarrow> Inl e
      | Inr (pos, nrm, uv) \<Rightarrow>
          decode_vertices32 fsub payload vb_off flip_v swap_yz is
            (vertices @ [pos], normals @ [Some nrm], uvs @ [Some uv]))"

text \<open>
  The loop \<open>for i in range(0, len(indices), 3): a, b, c = indices[i : i + 3]\<close>: a last slice
  of one or two indices does not unpack into three names (\<open>ValueError\<close>).
\<close>

fun triangle_list :: "nat list \<Rightarrow> error + (nat \<times> nat \<times> nat) list" where
  "triangle_list [] = Inr []"
| "triangle_list (a # b # c # rest) =
     (case triangle_list rest of Inl e \<Rightarrow> Inl e | Inr faces \<Rightarrow> Inr ((a, b, c) # faces))"
| "triangle_list rest = Inl ValueError"

definition decode_scn0_stride32_mesh_block ::
  "(pyfloat \<Rightarrow> pyfloat \<Rightarrow> pyfloat) \<Rightarrow> byte list \<Rightarrow> block \<Rightarrow> bool \<Rightarrow> bool \<Rightarrow> error + mesh" where
  "decode_scn0_stride32_mesh_block fsub payload blk flip_v swap_yz =
     (let vcount = b_vcount blk; vb_off = b_vb_off blk; ib_off = b_ib_off blk;
          ib_bytes = b_ib_bytes blk
      in ebind (decode_vertices32 fsub payload vb_off flip_v swap_yz [0..<vcount] ([], [], []))
           (\<lambda>(vertices, normals, uvs).
         let idx_count = ib_bytes div 2 in
         ebind (unpack_Hs idx_count payload ib_off) (\<lambda>indices.
         ebind (triangle_list indices) (\<lambda>faces.
         Inr \<lparr>mesh_name = ''SCN0_mesh_'' @ hex_str (b_off blk), mesh_decl = 0,
              mesh_vertices = vertices, mesh_normals = normals, mesh_uvs = uvs,
              mesh_faces = faces, mesh_maps = [], mesh_subsets = [],
              mesh_material_sets = []\<rparr>))))"

text \<open>The invariant of the data model: every index of every face is below the vertex count.\<close>

definition face_indices_in_range :: "mesh \<Rightarrow> bool" where
  "face_indices_in_range m =
     list_all (\<lambda>(a, b, c). a < length (mesh_vertices m) \<and> b < length (mesh_vertices m)
                           \<and> c < length (mesh_vertices m)) (mesh_faces m)"

text \<open>The indices of the faces in the order of the index buffer.\<close>

definition face_indices :: "mesh \<Rightarrow> nat list" where
  "face_indices m = concat (map (\<lambda>(a, b, c). [a, b, c]) (mesh_faces m))"

subsection \<open>A block with an index beyond its vertices\<close>

text \<open>
  A payload that holds one fixed-stride-32 block at offset 0: three vertices (all zero), tag
  101, and twelve 16-bit indices, of which the eleventh is 7.
\<close>

definition payload_index7 :: "byte list" where
  "payload_index7 = [3, 0, 0, 0] @ replicate 96 0 @ [101, 0, 0, 0, 24, 0, 0, 0]
     @ [0, 0, 1, 0, 2, 0, 0, 0, 1, 0, 2, 0, 0, 0, 1, 0, 2, 0, 0, 0, 7, 0, 2, 0]"

text \<open>The same block with six indices, all below the vertex count.\<close>

definition payload_two_faces :: "byte list" where
  "payload_two_faces = [4, 0, 0, 0] @ replicate 128 0 @ [102, 0, 0, 0, 12, 0, 0, 0]
     @ [0, 0, 1, 0, 2, 0, 2, 0, 1, 0, 3, 0]"

section \<open>FixedElementTable declarations: \<open>parse_d3d_decl_520\<close>\<close>

text \<open>An element is the tuple \<open>(stream, offset, typ, method, usage, usage_idx)\<close>.\<close>

type_synonym elem = "nat \<times> nat \<times> nat \<times> nat \<times> nat \<times> nat"

definition unpack_HH :: "byte list \<Rightarrow> nat \<Rightarrow> error + (nat \<times> nat)" where
  "unpack_HH buffer offset =
     ebind (unpack_from 4 buffer offset) (\<lambda>bs. Inr (le_nat (take 2 bs), le_nat (take 2 (drop 2 bs))))"

definition unpack_BBBB :: "byte list \<Rightarrow> nat \<Rightarrow> error + (nat \<times> nat \<times> nat \<times> nat)" where
  "unpack_BBBB buffer offset =
     ebind (unpack_from 4 buffer offset)
       (\<lambda>bs. Inr (le_nat (take 1 bs), le_nat (take 1 (drop 1 bs)), le_nat (take 1 (drop 2 bs)),
                  le_nat (take 1 (drop 3 bs))))"

text \<open>
  The first loop, \<open>for i in range(65)\<close>: it appends each record and breaks after the record
  whose stream is \<open>0xFF\<close>. The result is \<open>(elems, end_found)\<close>.
\<close>

fun read_elems :: "byte list \<Rightarrow> nat list \<Rightarrow> elem list \<Rightarrow> error + (elem list \<times> bool)" where
  "read_elems blk [] elems = Inr (elems, False)"
| "read_elems blk (i # is) elems =
     (let off = i * 8 in
      case unpack_HH blk off of
        Inl e \<Rightarrow> Inl e
      | Inr (stream, offset) \<Rightarrow>
          (case unpack_BBBB blk (off + 4) of
             Inl e \<Rightarrow> Inl e
           | Inr (typ, method, usage, usage_idx) \<Rightarrow>
               if stream = 0xFF
               then Inr (elems @ [(stream, offset, typ, method, usage, usage_idx)], True)
               else read_elems blk is (elems @ [(stream, offset, typ, method, usage, usage_idx)])))"

text \<open>The dictionary \<open>type_size\<close> of the D3DDECLTYPE sizes.\<close>

definition type_size :: "nat \<Rightarrow> nat option" where
  "type_size typ =
     map_of [(0, 4), (1, 8), (2, 12), (3, 16), (4, 4), (5, 4), (6, 4), (7, 4), (8, 8), (9, 8),
             (10, 16), (11, 4), (12, 4), (13, 4), (14, 4), (15, 8), (16, 8), (17, 8)] typ"

text \<open>
  The second loop, over \<open>elems\<close>: \<open>None\<close> is the \<open>return None\<close> for a type without a size,
  \<open>Some stride\<close> the stride at the end of the loop or at its \<open>break\<close>.
\<close>

fun stride_loop :: "elem list \<Rightarrow> nat \<Rightarrow> nat option" where
  "stride_loop [] stride = Some stride"
| "stride_loop ((stream, offset, typ, method, usage, usage_idx) # rest) stride =
     (if stream = 0xFF then Some stride
      else case type_size typ of
             None \<Rightarrow> None
           | Some sz \<Rightarrow>
               if stream \<noteq> 0 then stride_loop rest stride
               else stride_loop rest (max stride (offset + sz)))"

definition parse_d3d_decl_520 :: "byte list \<Rightarrow> error + (nat \<times> elem list) option" where
  "parse_d3d_decl_520 blk =
     (if length blk \<noteq> 520 then Inr None
      else ebind (read_elems blk [0..<65] []) (\<lambda>(elems, end_found).
           if \<not> end_found then Inr None
           else case stride_loop elems 0 of
                  None \<Rightarrow> Inr None
                | Some stride \<Rightarrow>
                    if stride \<le> 0 \<or> stride > 1024 then Inr None
                    else Inr (Some (stride, elems))))"

subsection \<open>The declaration block, as the specification words it\<close>

definition u8v :: "byte list \<Rightarrow> nat \<Rightarrow> nat" where
  "u8v p off = le_nat (take 1 (drop off p))"

definition record_at :: "byte list \<Rightarrow> nat \<Rightarrow> elem" where
  "record_at blk i = (u16v blk (i * 8), u16v blk (i * 8 + 2), u8v blk (i * 8 + 4),
                      u8v blk (i * 8 + 5), u8v blk (i * 8 + 6), u8v blk (i * 8 + 7))"

definition records :: "byte list \<Rightarrow> elem list" where
  "records blk = map (record_at blk) [0..<65]"

definition is_sentinel :: "elem \<Rightarrow> bool" where
  "is_sentinel e = (fst e = 0xFF)"

definition has_sentinel :: "byte list \<Rightarrow> bool" where
  "has_sentinel blk = list_ex is_sentinel (records blk)"

definition before_sentinel :: "byte list \<Rightarrow> elem list" where
  "before_sentinel blk = takeWhile (\<lambda>e. \<not> is_sentinel e) (records blk)"

definition unknown_type :: "byte list \<Rightarrow> bool" where
  "unknown_type blk = list_ex (\<lambda>(stream, offset, typ, rest). type_size typ = None) (before_sentinel blk)"

text \<open>The end of an element: its offset plus the size of its type.\<close>

definition elem_end :: "elem \<Rightarrow> nat" where
  "elem_end e = (case e of (stream, offset, typ, rest) \<Rightarrow>
                   offset + (case type_size typ of Some sz \<Rightarrow> sz | None \<Rightarrow> 0))"

text \<open>The maximum of the ends of the stream-0 elements before the sentinel; 0 without any.\<close>

definition decl_stride :: "byte list \<Rightarrow> nat" where
  "decl_stride blk = Max (insert 0 (elem_end ` {e \<in> set (before_sentinel blk). fst e = 0}))"

text \<open>The records up to the sentinel, the sentinel included.\<close>

definition parsed_elems :: "byte list \<Rightarrow> elem list" where
  "parsed_elems blk = take (Suc (length (before_sentinel blk))) (records blk)"

text \<open>A block whose first record is the sentinel: no element precedes it.\<close>

definition decl_only_sentinel :: "byte list" where
  "decl_only_sentinel = [0xFF, 0] @ replicate 518 0"

text \<open>
  A block with position (\<open>FLOAT3\<close> at 0), normal (\<open>FLOAT3\<close> at 12) and texture coordinate
  (\<open>FLOAT2\<close> at 24) on stream 0, then the sentinel: stride 32.
\<close>

definition decl_pos_nrm_uv :: "byte list" where
  "decl_pos_nrm_uv = [0, 0, 0, 0, 2, 0, 0, 0] @ [0, 0, 12, 0, 2, 0, 3, 0]
     @ [0, 0, 24, 0, 1, 0, 5, 0] @ [0xFF, 0, 0, 0, 17, 0, 0, 0] @ replicate 488 0"

section \<open>The CompactBitmask vertex decoder: \<open>decode_vertex\<close>\<close>

text \<open>
  \<open>struct.unpack_from("<kf", vb, off)\<close> needs \<open>4 * k\<close> bytes; the source keeps the first three
  values (a position or a normal) or the first two (a texture coordinate) and drops the rest.
\<close>

definition unpack_kf_xyz :: "nat \<Rightarrow> byte list \<Rightarrow> nat \<Rightarrow> error + vec3" where
  "unpack_kf_xyz k buffer offset =
     ebind (unpack_from (4 * k) buffer offset)
       (\<lambda>bs. Inr (f32_le (take 4 bs), f32_le (take 4 (drop 4 bs)), f32_le (take 4 (drop 8 bs))))"

definition unpack_kf_uv :: "nat \<Rightarrow> byte list \<Rightarrow> nat \<Rightarrow> error + vec2" where
  "unpack_kf_uv k buffer offset =
     ebind (unpack_from (4 * k) buffer offset)
       (\<lambda>bs. Inr (f32_le (take 4 bs), f32_le (take 4 (drop 4 bs))))"

text \<open>The base field: the position and the offset after it.\<close>

definition decode_base :: "32 word \<Rightarrow> byte list \<Rightarrow> nat \<Rightarrow> error + (vec3 \<times> nat)" where
  "decode_base base_sel vb off =
     (if base_sel = 0x0002 then ebind (unpack_kf_xyz 3 vb off) (\<lambda>p. Inr (p, off + 12))
      else if base_sel = 0x0004 \<or> base_sel = 0x0006 then
        ebind (unpack_kf_xyz 4 vb off) (\<lambda>p. Inr (p, off + 16))
      else if base_sel = 0x0008 then ebind (unpack_kf_xyz 5 vb off) (\<lambda>p. Inr (p, off + 20))
      else if base_sel = 0x000A then ebind (unpack_kf_xyz 6 vb off) (\<lambda>p. Inr (p, off + 24))
      else if base_sel = 0x000C then ebind (unpack_kf_xyz 7 vb off) (\<lambda>p. Inr (p, off + 28))
      else if base_sel = 0x000E then ebind (unpack_kf_xyz 8 vb off) (\<lambda>p. Inr (p, off + 32))
      else ebind (unpack_kf_xyz 3 vb off) (\<lambda>p. Inr (p, off + 12)))"

text \<open>The first texture coordinate, in the format of the first selector slot.\<close>

definition decode_uv :: "32 word \<Rightarrow> byte list \<Rightarrow> nat \<Rightarrow> error + vec2" where
  "decode_uv fmt vb off =
     (if fmt = 0 then unpack_kf_uv 2 vb off
      else if fmt = 1 then unpack_kf_uv 3 vb off
      else if fmt = 2 then unpack_kf_uv 4 vb off
      else ebind (unpack_H vb off) (\<lambda>hu.
           ebind (unpack_H vb (off + 2)) (\<lambda>hv.
           Inr (half_to_float (word_of_nat hu), half_to_float (word_of_nat hv)))))"

text \<open>The optional normal (bit \<open>0x10\<close>) and the offset after it.\<close>

definition decode_normal ::
  "32 word \<Rightarrow> byte list \<Rightarrow> nat \<Rightarrow> bool \<Rightarrow> error + (vec3 option \<times> nat)" where
  "decode_normal decl vb off swap_yz =
     (if decl AND 0x10 \<noteq> 0
      then ebind (unpack_kf_xyz 3 vb off) (\<lambda>(nx, ny, nz).
           let (ny, nz) = (if swap_yz then (nz, ny) else (ny, nz))
           in Inr (Some (nx, ny, nz), off + 12))
      else Inr (None, off))"

text \<open>The three packed fields (bits \<open>0x20\<close>, \<open>0x40\<close>, \<open>0x80\<close>) are skipped, not read.\<close>

definition skip_packed :: "32 word \<Rightarrow> nat \<Rightarrow> nat" where
  "skip_packed decl off =
     (let off = (if decl AND 0x20 \<noteq> 0 then off + 4 else off);
          off = (if decl AND 0x40 \<noteq> 0 then off + 4 else off);
          off = (if decl AND 0x80 \<noteq> 0 then off + 4 else off)
      in off)"

text \<open>The optional texture coordinate: at most the first slot is decoded.\<close>

definition decode_first_uv ::
  "(pyfloat \<Rightarrow> pyfloat \<Rightarrow> pyfloat) \<Rightarrow> 32 word \<Rightarrow> byte list \<Rightarrow> nat \<Rightarrow> bool
   \<Rightarrow> error + vec2 option" where
  "decode_first_uv fsub decl vb off flip_v =
     (let uv_count = drop_bit 8 decl AND 0xF in
      if uv_count \<noteq> 0
      then let uv_fmt_bits = drop_bit 16 decl AND 0xFFFF;
               fmt = (if uv_fmt_bits \<noteq> 0 then uv_fmt_bits AND 3 else 0)
           in ebind (decode_uv fmt vb off) (\<lambda>(u, v).
              let v = (if flip_v then fsub (Finite False 1) v else v)
              in Inr (Some (u, v)))
      else Inr None)"

text \<open>The function is the sequence of these four blocks.\<close>

definition decode_vertex ::
  "(pyfloat \<Rightarrow> pyfloat \<Rightarrow> pyfloat) \<Rightarrow> 32 word \<Rightarrow> byte list \<Rightarrow> nat \<Rightarrow> bool \<Rightarrow> bool
   \<Rightarrow> error + (vec3 \<times> vec3 option \<times> vec2 option)" where
  "decode_vertex fsub decl vb i flip_v swap_yz =
     (let stride = vertex_stride_from_decl decl;
          off = i * stride;
          base_sel = decl AND 0x400E
      in ebind (decode_base base_sel vb off) (\<lambda>((x, y, z), off).
         let (y, z) = (if swap_yz then (z, y) else (y, z));
             pos = (x, y, z)
         in ebind (decode_normal decl vb off swap_yz) (\<lambda>(nrm, off).
            let off = skip_packed decl off
            in ebind (decode_first_uv fsub decl vb off flip_v) (\<lambda>uv.
               Inr (pos, nrm, uv)))))"

text \<open>
  The declaration with the base selector replaced by \<open>0x0002\<close>, the recognised base of
  three floats.
\<close>

definition with_base_0002 :: "32 word \<Rightarrow> 32 word" where
  "with_base_0002 decl = (decl AND NOT 0x400E) OR 0x0002"

text \<open>
  A declaration with an unlisted base selector (0), a normal and one half-float texture
  coordinate, and a buffer of two vertices of stride 16 with 12 more bytes.
\<close>

definition decl_unknown_base :: "32 word" where
  "decl_unknown_base = 0x00030110"

definition vb_unknown_base :: "byte list" where
  "vb_unknown_base = replicate 16 0 @ [0, 0, 0x80, 0x3F, 0, 0, 0, 0x40, 0, 0, 0x40, 0x40]
     @ replicate 12 0 @ [0, 0x3C, 0, 0x38] @ replicate 12 0"

section \<open>The scene-tree walker: \<open>parse_scn_tree\<close>\<close>

text \<open>
  The \<open>Reader\<close> holds the immutable data and the cursor \<open>ofs\<close>; each method takes the cursor
  and returns the new one. \<open>bytes.find(b"\x00", ofs)\<close> is the index of the first zero byte at
  or after \<open>ofs\<close>, and \<open>-1\<close> (here \<open>None\<close>) without one or with \<open>ofs\<close> beyond the end. The callers
  pass a cursor that is not negative.
\<close>

definition find_byte :: "byte \<Rightarrow> byte list \<Rightarrow> nat \<Rightarrow> nat option" where
  "find_byte b data start =
     (let rest = drop start data; k = length (takeWhile (\<lambda>x. x \<noteq> b) rest)
      in if k < length rest then Some (start + k) else None)"

definition reader_seek :: "byte list \<Rightarrow> nat \<Rightarrow> error + nat" where
  "reader_seek data ofs = (if ofs \<le> length data then Inr ofs else Inl ValueError)"

definition reader_skip :: "byte list \<Rightarrow> nat \<Rightarrow> nat \<Rightarrow> error + nat" where
  "reader_skip data ofs n = reader_seek data (ofs + n)"

definition reader_u32 :: "byte list \<Rightarrow> nat \<Rightarrow> error + (nat \<times> nat)" where
  "reader_u32 data ofs = ebind (unpack_I data ofs) (\<lambda>v. Inr (v, ofs + 4))"

text \<open>The decoded name is not used; decoding with \<open>"replace"\<close> does not fail.\<close>

definition reader_cstr :: "byte list \<Rightarrow> nat \<Rightarrow> error + nat" where
  "reader_cstr data ofs =
     (case find_byte 0 data ofs of None \<Rightarrow> Inl ValueError | Some end_ofs \<Rightarrow> Inr (end_ofs + 1))"

text \<open>
  \<open>parse_node\<close> calls itself for each child and counts no depth; \<open>parse_link\<close> is the pair
  of statements \<open>flag = r.u32()\<close>, \<open>if flag == 1: parse_node()\<close> that the source has twice. The only limit is the
  interpreter's: CPython raises \<open>RecursionError\<close> at a call that exceeds its recursion limit.
  The first argument is the number of nested calls of \<open>parse_node\<close> that the interpreter
  still allows when \<open>parse_scn_tree\<close> is entered; it is a parameter of the environment, not a
  value of the program.
\<close>

fun parse_node :: "nat \<Rightarrow> byte list \<Rightarrow> nat \<Rightarrow> error + nat"
  and parse_link :: "nat \<Rightarrow> byte list \<Rightarrow> nat \<Rightarrow> error + nat" where
  "parse_node 0 data ofs = Inl RecursionError"
| "parse_node (Suc frames) data ofs =
     (case reader_cstr data ofs of Inl e \<Rightarrow> Inl e | Inr ofs \<Rightarrow>
      case reader_skip data ofs 0x40 of Inl e \<Rightarrow> Inl e | Inr ofs \<Rightarrow>
      case parse_link frames data ofs of Inl e \<Rightarrow> Inl e | Inr ofs \<Rightarrow>
      parse_link frames data ofs)"
| "parse_link frames data ofs =
     (case reader_u32 data ofs of Inl e \<Rightarrow> Inl e | Inr (flag, ofs) \<Rightarrow>
      if flag = 1 then parse_node frames data ofs else Inr ofs)"

definition parse_scn_tree :: "nat \<Rightarrow> byte list \<Rightarrow> nat \<Rightarrow> error + nat" where
  "parse_scn_tree frames data start = parse_node frames data start"

subsection \<open>Well-formed trees and their bytes\<close>

text \<open>
  A node is its name, its 64 opaque bytes and two links; a link is a child (flag 1) or the four
  bytes of a flag that is not 1.
\<close>

datatype scn_node = ScnNode "byte list" "byte list" scn_link scn_link
  and scn_link = NoChild "byte list" | Child scn_node

fun encode_node :: "scn_node \<Rightarrow> byte list"
  and encode_link :: "scn_link \<Rightarrow> byte list" where
  "encode_node (ScnNode nm blob l1 l2) = nm @ [0] @ blob @ encode_link l1 @ encode_link l2"
| "encode_link (NoChild flag_bytes) = flag_bytes"
| "encode_link (Child n) = [1, 0, 0, 0] @ encode_node n"

fun wf_node :: "scn_node \<Rightarrow> bool"
  and wf_link :: "scn_link \<Rightarrow> bool" where
  "wf_node (ScnNode nm blob l1 l2) =
     (0 \<notin> set nm \<and> length blob = 64 \<and> wf_link l1 \<and> wf_link l2)"
| "wf_link (NoChild flag_bytes) = (length flag_bytes = 4 \<and> le_nat flag_bytes \<noteq> 1)"
| "wf_link (Child n) = wf_node n"

text \<open>The nesting depth: the number of nodes on the longest chain from the root.\<close>

fun depth_node :: "scn_node \<Rightarrow> nat"
  and depth_link :: "scn_link \<Rightarrow> nat" where
  "depth_node (ScnNode nm blob l1 l2) = Suc (max (depth_link l1) (depth_link l2))"
| "depth_link (NoChild flag_bytes) = 0"
| "depth_link (Child n) = depth_node n"

text \<open>A chain of \<open>n + 1\<close> nodes, each the first child of the one before.\<close>

fun chain :: "nat \<Rightarrow> scn_node" where
  "chain 0 = ScnNode [] (replicate 64 0) (NoChild [0, 0, 0, 0]) (NoChild [0, 0, 0, 0])"
| "chain (Suc n) = ScnNode [] (replicate 64 0) (Child (chain n)) (NoChild [0, 0, 0, 0])"

section \<open>Subset table recovery: \<open>find_subset_table\<close>\<close>

definition unpack_4I :: "byte list \<Rightarrow> nat \<Rightarrow> error + (nat \<times> nat \<times> nat \<times> nat)" where
  "unpack_4I buffer offset =
     ebind (unpack_from 16 buffer offset)
       (\<lambda>bs. Inr (le_nat (take 4 bs), le_nat (take 4 (drop 4 bs)), le_nat (take 4 (drop 8 bs)),
                  le_nat (take 4 (drop 12 bs))))"

definition unpack_5I ::
  "byte list \<Rightarrow> nat \<Rightarrow> error + (nat \<times> nat \<times> nat \<times> nat \<times> nat)" where
  "unpack_5I buffer offset =
     ebind (unpack_from 20 buffer offset)
       (\<lambda>bs. Inr (le_nat (take 4 bs), le_nat (take 4 (drop 4 bs)), le_nat (take 4 (drop 8 bs)),
                  le_nat (take 4 (drop 12 bs)), le_nat (take 4 (drop 16 bs))))"

text \<open>
  The read at the head of the loop over the entries, with the test of the vertex count that
  only the 20-byte entry has: \<open>None\<close> is \<open>ok = False; break\<close>.
\<close>

definition read_entry ::
  "byte list \<Rightarrow> nat \<Rightarrow> nat \<Rightarrow> nat \<Rightarrow> nat \<Rightarrow> error + (nat \<times> nat \<times> nat \<times> nat) option" where
  "read_entry payload off entry_size vcount i =
     (if entry_size = 20
      then ebind (unpack_5I payload (off + 4 + i * 20))
             (\<lambda>(m_id, start_tri, tri_count, base_v, vcnt).
                if vcnt \<noteq> vcount then Inr None
                else Inr (Some (m_id, start_tri, tri_count, base_v)))
      else ebind (unpack_4I payload (off + 4 + i * 16)) (\<lambda>e. Inr (Some e)))"

text \<open>The three tests that follow: false is \<open>ok = False; break\<close>.\<close>

definition entry_checks :: "nat \<Rightarrow> nat option \<Rightarrow> nat \<times> nat \<times> nat \<times> nat \<Rightarrow> bool" where
  "entry_checks vcount face_count e =
     (case e of (m_id, start_tri, tri_count, base_v) \<Rightarrow>
        if base_v > vcount then False
        else if start_tri > 100000000 \<or> tri_count > 100000000 \<or> tri_count = 0 then False
        else if (case face_count of None \<Rightarrow> False | Some fc \<Rightarrow> start_tri + tri_count > fc)
             then False
        else True)"

text \<open>The dictionary that is appended for an entry.\<close>

definition entry_dict :: "nat \<times> nat \<times> nat \<times> nat \<Rightarrow> subset_entry" where
  "entry_dict e =
     (case e of (m_id, start_tri, tri_count, base_v) \<Rightarrow>
        [(''material_id'', m_id), (''start_tri'', start_tri), (''tri_count'', tri_count),
         (''base_vertex'', base_v)])"

text \<open>
  The loop \<open>for i in range(subset_count)\<close>; the state is \<open>(entries, max_end, sum_tris)\<close> and
  the result has \<open>ok\<close> in front.
\<close>

fun entries_loop ::
  "byte list \<Rightarrow> nat \<Rightarrow> nat \<Rightarrow> nat \<Rightarrow> nat option \<Rightarrow> nat list
   \<Rightarrow> subset_entry list \<times> nat \<times> nat
   \<Rightarrow> error + (bool \<times> subset_entry list \<times> nat \<times> nat)" where
  "entries_loop payload off entry_size vcount face_count [] (entries, max_end, sum_tris) =
     Inr (True, entries, max_end, sum_tris)"
| "entries_loop payload off entry_size vcount face_count (i # is) (entries, max_end, sum_tris) =
     (case read_entry payload off entry_size vcount i of
        Inl e \<Rightarrow> Inl e
      | Inr None \<Rightarrow> Inr (False, entries, max_end, sum_tris)
      | Inr (Some (m_id, start_tri, tri_count, base_v)) \<Rightarrow>
          if \<not> entry_checks vcount face_count (m_id, start_tri, tri_count, base_v)
          then Inr (False, entries, max_end, sum_tris)
          else entries_loop payload off entry_size vcount face_count is
                 (entries @ [entry_dict (m_id, start_tri, tri_count, base_v)],
                  max max_end (start_tri + tri_count), sum_tris + tri_count))"

text \<open>
  The body of the loop \<open>for entry_size in (20, 16)\<close>: the new value of \<open>best\<close>. The end of
  the best table is kept under the key \<open>_end_off\<close> of its first entry.
\<close>

definition try_table ::
  "byte list \<Rightarrow> int \<Rightarrow> nat \<Rightarrow> nat option \<Rightarrow> nat \<Rightarrow> nat \<Rightarrow> nat \<Rightarrow> subset_entry list
   \<Rightarrow> error + subset_entry list" where
  "try_table payload decl_off vcount face_count off subset_count entry_size best =
     (let table_bytes = 4 + subset_count * entry_size in
      if int (off + table_bytes) > decl_off then Inr best
      else ebind (entries_loop payload off entry_size vcount face_count [0..<subset_count]
                    ([], 0, 0)) (\<lambda>(ok, entries, max_end, sum_tris).
           if \<not> ok then Inr best
           else if sum_tris = 0 \<or> max_end = 0 then Inr best
           else ebind (if best = [] then Inr True
                       else case map_of (hd best) ''_end_off'' of
                              None \<Rightarrow> Inl KeyError
                            | Some best_end \<Rightarrow>
                                Inr (decl_off - int (off + table_bytes) < decl_off - int best_end))
                  (\<lambda>closer.
                if closer
                then Inr (if entries \<noteq> []
                          then AList.update ''_end_off'' (off + table_bytes) (hd entries) # tl entries
                          else entries)
                else Inr best)))"

text \<open>The body of the loop over \<open>off\<close>.\<close>

definition scan_offset ::
  "byte list \<Rightarrow> int \<Rightarrow> nat \<Rightarrow> nat option \<Rightarrow> nat \<Rightarrow> subset_entry list
   \<Rightarrow> error + subset_entry list" where
  "scan_offset payload decl_off vcount face_count off best =
     ebind (unpack_I payload off) (\<lambda>subset_count.
     if subset_count = 0 \<or> subset_count > 256 then Inr best
     else ebind (try_table payload decl_off vcount face_count off subset_count 20 best)
            (\<lambda>best. try_table payload decl_off vcount face_count off subset_count 16 best))"

fun offsets_loop ::
  "byte list \<Rightarrow> int \<Rightarrow> nat \<Rightarrow> nat option \<Rightarrow> nat list \<Rightarrow> subset_entry list
   \<Rightarrow> error + subset_entry list" where
  "offsets_loop payload decl_off vcount face_count [] best = Inr best"
| "offsets_loop payload decl_off vcount face_count (off # offs) best =
     (case scan_offset payload decl_off vcount face_count off best of
        Inl e \<Rightarrow> Inl e
      | Inr best \<Rightarrow> offsets_loop payload decl_off vcount face_count offs best)"

text \<open>The offsets of \<open>range(search_start, search_end, 4)\<close>.\<close>

definition range4 :: "nat \<Rightarrow> nat \<Rightarrow> nat list" where
  "range4 search_start search_end =
     map (\<lambda>k. search_start + 4 * k) [0..<(search_end - search_start + 3) div 4]"

definition subset_offsets :: "int \<Rightarrow> nat list" where
  "subset_offsets decl_off =
     (let search_start = nat (max 0 (decl_off - 0x4000));
          search_end = nat (max 0 (decl_off - 4))
      in if search_end \<le> search_start then [] else range4 search_start search_end)"

definition find_subset_table ::
  "byte list \<Rightarrow> int \<Rightarrow> nat \<Rightarrow> nat option \<Rightarrow> error + subset_entry list" where
  "find_subset_table payload decl_off vcount face_count =
     (let search_start = nat (max 0 (decl_off - 0x4000));
          search_end = nat (max 0 (decl_off - 4))
      in if search_end \<le> search_start then Inr []
         else ebind (offsets_loop payload decl_off vcount face_count
                       (range4 search_start search_end) []) (\<lambda>best.
              if best \<noteq> [] \<and> ''_end_off'' \<in> fst ` set (hd best)
              then Inr (AList.delete ''_end_off'' (hd best) # tl best)
              else Inr best))"

subsection \<open>Candidate tables, as the specification words them\<close>

text \<open>
  A candidate is an offset of the scan with an entry size. Its table has the count at the
  offset, the entries after it, and ends where the last entry ends.
\<close>

type_synonym cand = "nat \<times> nat"

definition table_count :: "byte list \<Rightarrow> cand \<Rightarrow> nat" where
  "table_count p c = u32v p (fst c)"

definition table_end :: "byte list \<Rightarrow> cand \<Rightarrow> nat" where
  "table_end p c = fst c + 4 + table_count p c * snd c"

text \<open>The fields \<open>(material_id, start_tri, tri_count, base_vertex)\<close> of entry \<open>i\<close>.\<close>

definition entry_fields :: "byte list \<Rightarrow> cand \<Rightarrow> nat \<Rightarrow> nat \<times> nat \<times> nat \<times> nat" where
  "entry_fields p c i =
     (let a = fst c + 4 + i * snd c in (u32v p a, u32v p (a + 4), u32v p (a + 8), u32v p (a + 12)))"

text \<open>The fifth field of a 20-byte entry.\<close>

definition entry_vertex_count :: "byte list \<Rightarrow> cand \<Rightarrow> nat \<Rightarrow> nat" where
  "entry_vertex_count p c i = u32v p (fst c + 4 + i * snd c + 16)"

definition entry_valid :: "byte list \<Rightarrow> nat \<Rightarrow> nat option \<Rightarrow> cand \<Rightarrow> nat \<Rightarrow> bool" where
  "entry_valid p vcount face_count c i =
     (case entry_fields p c i of (m_id, start_tri, tri_count, base_v) \<Rightarrow>
        (if snd c = 20 then entry_vertex_count p c i = vcount else True)
      \<and> base_v \<le> vcount
      \<and> start_tri \<le> 100000000 \<and> 0 < tri_count \<and> tri_count \<le> 100000000
      \<and> (case face_count of None \<Rightarrow> True | Some fc \<Rightarrow> start_tri + tri_count \<le> fc))"

definition table_valid :: "byte list \<Rightarrow> int \<Rightarrow> nat \<Rightarrow> nat option \<Rightarrow> cand \<Rightarrow> bool" where
  "table_valid p decl_off vcount face_count c =
     (1 \<le> table_count p c \<and> table_count p c \<le> 256
    \<and> int (table_end p c) \<le> decl_off
    \<and> list_all (entry_valid p vcount face_count c) [0..<table_count p c])"

definition table_entries :: "byte list \<Rightarrow> cand \<Rightarrow> subset_entry list" where
  "table_entries p c = map (\<lambda>i. entry_dict (entry_fields p c i)) [0..<table_count p c]"

text \<open>The candidates in the order of the scan: by offset, entry size 20 before 16.\<close>

definition candidates :: "int \<Rightarrow> cand list" where
  "candidates decl_off = concat (map (\<lambda>off. [(off, 20), (off, 16)]) (subset_offsets decl_off))"

text \<open>
  The table that the scan holds after a list of candidates: a valid candidate replaces the
  table held only if it ends later, that is, closer to the declaration.
\<close>

definition closer_step ::
  "byte list \<Rightarrow> int \<Rightarrow> nat \<Rightarrow> nat option \<Rightarrow> cand \<Rightarrow> cand option \<Rightarrow> cand option" where
  "closer_step p decl_off vcount face_count c held =
     (if table_valid p decl_off vcount face_count c
         \<and> (case held of None \<Rightarrow> True | Some h \<Rightarrow> table_end p h < table_end p c)
      then Some c else held)"

definition closest_table ::
  "byte list \<Rightarrow> int \<Rightarrow> nat \<Rightarrow> nat option \<Rightarrow> cand list \<Rightarrow> cand option" where
  "closest_table p decl_off vcount face_count cs =
     fold (closer_step p decl_off vcount face_count) cs None"

text \<open>The value of \<open>best\<close> for a held table: its entries, the first with the key \<open>_end_off\<close>.\<close>

definition marked :: "byte list \<Rightarrow> cand option \<Rightarrow> subset_entry list" where
  "marked p held =
     (case held of
        None \<Rightarrow> []
      | Some h \<Rightarrow> AList.update ''_end_off'' (table_end p h) (hd (table_entries p h))
                  # tl (table_entries p h))"

text \<open>
  The validity of a candidate in the words of the specification, which names no bound of
  100000000 on \<open>start_tri\<close> and \<open>tri_count\<close>.
\<close>

definition claimed_entry_valid :: "byte list \<Rightarrow> nat \<Rightarrow> nat \<Rightarrow> cand \<Rightarrow> nat \<Rightarrow> bool" where
  "claimed_entry_valid p vcount face_count c i =
     (case entry_fields p c i of (m_id, start_tri, tri_count, base_v) \<Rightarrow>
        base_v \<le> vcount \<and> 0 < tri_count \<and> start_tri + tri_count \<le> face_count
      \<and> (if snd c = 20 then entry_vertex_count p c i = vcount else True))"

definition claimed_table_valid :: "byte list \<Rightarrow> int \<Rightarrow> nat \<Rightarrow> nat \<Rightarrow> cand \<Rightarrow> bool" where
  "claimed_table_valid p decl_off vcount face_count c =
     (1 \<le> table_count p c \<and> table_count p c \<le> 256
    \<and> int (table_end p c) \<le> decl_off
    \<and> list_all (claimed_entry_valid p vcount face_count c) [0..<table_count p c])"

subsection \<open>Payloads with a subset table\<close>

text \<open>
  A table of one 20-byte entry \<open>(material 0, start 0, 100000001 triangles, base 0, 3 vertices)\<close>
  at offset 0; the declaration would start at 24.
\<close>

definition payload_big_tri :: "byte list" where
  "payload_big_tri = [1, 0, 0, 0] @ [0, 0, 0, 0] @ [0, 0, 0, 0] @ [0x01, 0xE1, 0xF5, 0x05]
     @ [0, 0, 0, 0] @ [3, 0, 0, 0]"

text \<open>
  Two bytes, then a table of one 20-byte entry \<open>(material 0, start 0, 1 triangle, base 0,
  3 vertices)\<close> at offset 2; the declaration would start at 26.
\<close>

definition payload_unaligned :: "byte list" where
  "payload_unaligned = [0xFF, 0xFF] @ [1, 0, 0, 0] @ [0, 0, 0, 0] @ [0, 0, 0, 0] @ [1, 0, 0, 0]
     @ [0, 0, 0, 0] @ [3, 0, 0, 0]"

text \<open>
  A table of two 20-byte entries \<open>(material 5, start 0, 2 triangles, base 0, 4 vertices)\<close> and
  \<open>(material 6, start 2, 1 triangle, base 1, 4 vertices)\<close> at offset 0; the declaration would
  start at 44.
\<close>

definition payload_two_subsets :: "byte list" where
  "payload_two_subsets = [2, 0, 0, 0]
     @ [5, 0, 0, 0] @ [0, 0, 0, 0] @ [2, 0, 0, 0] @ [0, 0, 0, 0] @ [4, 0, 0, 0]
     @ [6, 0, 0, 0] @ [2, 0, 0, 0] @ [1, 0, 0, 0] @ [1, 0, 0, 0] @ [4, 0, 0, 0]"

text \<open>
  A table of two 20-byte entries \<open>(material 7, start 0, 1 triangle, base 0, 1 vertex)\<close> and
  \<open>(material 8, start 0, 1 triangle, base 0, 1 vertex)\<close> at offset 0. The vertex count of the
  first entry, at offset 20, is at the same time the count of a table of one 20-byte entry,
  the second one; both tables end at 44, where the declaration would start.
\<close>

definition payload_nested_tables :: "byte list" where
  "payload_nested_tables = [2, 0, 0, 0]
     @ [7, 0, 0, 0] @ [0, 0, 0, 0] @ [1, 0, 0, 0] @ [0, 0, 0, 0] @ [1, 0, 0, 0]
     @ [8, 0, 0, 0] @ [0, 0, 0, 0] @ [1, 0, 0, 0] @ [0, 0, 0, 0] @ [1, 0, 0, 0]"
section \<open>Properties\<close>

subsection \<open>The stride of a CompactBitmask declaration\<close>

lemma and3_cases: "(w::32 word) AND 3 = 0 \<or> w AND 3 = 1 \<or> w AND 3 = 2 \<or> w AND 3 = 3"
proof -
  have "unat (w AND 3) \<le> unat (3::32 word)" by (rule word_and_le1 [THEN word_le_nat_alt [THEN iffD1]])
  then have "unat (w AND 3) < 4" by simp
  then consider "unat (w AND 3) = 0" | "unat (w AND 3) = 1" | "unat (w AND 3) = 2" | "unat (w AND 3) = 3"
    by linarith
  then show ?thesis
    by cases (simp_all add: word_unat_eq_iff)
qed

lemma selector_cost_and3: "selector_cost (unat ((w::32 word) AND 3)) =
      (if w AND 3 = 0 then 8 else if w AND 3 = 1 then 12 else if w AND 3 = 2 then 16 else 4)"
  using and3_cases [of w] by (auto simp: selector_cost_def)

lemma uv_loop_sum:
  "uv_loop n w s = s + (\<Sum>k<n. selector_cost (unat (drop_bit (2 * k) w AND 3)))"
proof (induction n arbitrary: w s)
  case 0
  then show ?case by simp
next
  case (Suc n)
  have shift: "\<And>k. drop_bit (2 * k) (drop_bit 2 w) = drop_bit (Suc (Suc (2 * k))) w"
    by (simp add: drop_bit_drop_bit add.commute)
  have "(\<Sum>k<Suc n. selector_cost (unat (drop_bit (2 * k) w AND 3))) =
        selector_cost (unat (w AND 3)) +
        (\<Sum>k<n. selector_cost (unat (drop_bit (2 * Suc k) w AND 3)))"
    by (subst sum.lessThan_Suc_shift) simp
  moreover have "uv_loop (Suc n) w s =
     selector_cost (unat (w AND 3)) + s + (\<Sum>k<n. selector_cost (unat (drop_bit (2 * Suc k) w AND 3)))"
    using Suc.IH [of "drop_bit 2 w"] selector_cost_and3 [of w] by (simp add: Let_def shift)
  ultimately show ?case by simp
qed


lemma test_bit4: "((d::32 word) AND 0x10 \<noteq> 0) = bit d 4"
  using and_exp_eq_0_iff_not_bit [of d 4] by simp
lemma test_bit5: "((d::32 word) AND 0x20 \<noteq> 0) = bit d 5"
  using and_exp_eq_0_iff_not_bit [of d 5] by simp
lemma test_bit6: "((d::32 word) AND 0x40 \<noteq> 0) = bit d 6"
  using and_exp_eq_0_iff_not_bit [of d 6] by simp
lemma test_bit7: "((d::32 word) AND 0x80 \<noteq> 0) = bit d 7"
  using and_exp_eq_0_iff_not_bit [of d 7] by simp

lemma sel16: "drop_bit 16 (d::32 word) AND 0xFFFF = drop_bit 16 d"
proof -
  have m: "(0xFFFF::32 word) = mask 16" by (simp add: mask_eq_exp_minus_1)
  show ?thesis unfolding m
    by (rule bit_word_eqI) (auto simp: bit_and_iff bit_mask_iff bit_drop_bit_eq dest: bit_imp_le_length)
qed

lemma sel_slot: "drop_bit (2 * k) (drop_bit 16 (d::32 word) AND 0xFFFF) AND 3 = drop_bit (16 + 2 * k) d AND 3"
  by (simp add: sel16 drop_bit_drop_bit add.commute)

lemma vertex_stride_from_decl_eq:
  "vertex_stride_from_decl d = spec_base d + spec_opt d + spec_uv d"
proof -
  have base: "(case base_table (d AND 0x400E) of Some b \<Rightarrow> b | None \<Rightarrow> 0) = spec_base d"
    by (simp add: base_table_def spec_base_def)
  show ?thesis
    unfolding vertex_stride_from_decl_def Let_def base spec_uv_def uv_loop_sum sel_slot sel16
      test_bit4 test_bit5 test_bit6 test_bit7 spec_opt_def slot_code_def
    by (simp add: add.commute)
qed

text \<open>
  C2: for every 32-bit declaration \<open>d\<close>, \<open>vertex_stride_from_decl d\<close> is the base size
  looked up from \<open>d AND 0x400E\<close> (0 for an unlisted mask), plus 12 for bit \<open>0x10\<close> and 4 for
  each of the bits \<open>0x20\<close>, \<open>0x40\<close>, \<open>0x80\<close>, plus the UV cost: 8 bytes per slot when bits
  16 to 31 are all zero, and otherwise 8, 12, 16 or 4 bytes for the selector code 0, 1, 2 or 3
  of each slot, slot \<open>k\<close> taking the two bits at \<open>16 + 2k\<close>.
\<close>

theorem vertex_stride_from_decl_spec:
  "vertex_stride_from_decl d = spec_base d + spec_opt d + spec_uv d"
  by (rule vertex_stride_from_decl_eq)

subsection \<open>Half floats\<close>

lemma half_sign: "(drop_bit 15 h AND 1 \<noteq> 0) = bit (h::16 word) 15"
proof -
  have "drop_bit 15 h AND 1 = (if bit h 15 then 1 else 0)"
    by (rule bit_word_eqI) (auto simp: bit_and_iff bit_drop_bit_eq bit_1_iff intro!: gr0I)
  then show ?thesis by simp
qed

lemma half_exp: "drop_bit 10 h AND 0x1F = take_bit 5 (drop_bit 10 (h::16 word))"
proof -
  have "(0x1F::16 word) = mask 5" by (simp add: mask_eq_exp_minus_1)
  then show ?thesis by (simp add: take_bit_eq_mask)
qed

lemma half_frac: "h AND 0x3FF = take_bit 10 (h::16 word)"
proof -
  have "(0x3FF::16 word) = mask 10" by (simp add: mask_eq_exp_minus_1)
  then show ?thesis by (simp add: take_bit_eq_mask)
qed

lemma powi_shift10: "(2::real) powi (e - 15) = 1024 * 2 powi (e - 25)"
proof -
  have "(2::real) powi (e - 15) = 2 powi (10 + (e - 25))" by simp
  also have "\<dots> = 2 powi 10 * 2 powi (e - 25)" by (subst power_int_add) simp_all
  finally show ?thesis by simp
qed

lemma powi_m24: "(2::real) powi (- 14) / 1024 = 2 powi (- 24)"
  by (simp add: power_int_minus)

lemma half_to_float_binary16: "half_to_float h = binary16_value h"
proof -
  define E where "E = unat (take_bit 5 (drop_bit 10 h))"
  define T where "T = unat (take_bit 10 h)"
  have E31: "(take_bit 5 (drop_bit 10 h) = 31) = (E = 31)"
    and E0: "(take_bit 5 (drop_bit 10 h) = 0) = (E = 0)"
    and T0: "(take_bit 10 h = 0) = (T = 0)"
    by (simp_all add: word_unat_eq_iff E_def T_def)
  have n: "(1 + real T / 1024) * 2 powi (int E - 15) = real (1024 + T) * 2 powi (int E - 25)"
    by (simp add: powi_shift10 field_simps)
  have s: "real T / 1024 * 2 powi (- 14) = real T * 2 powi (- 24)"
    using powi_m24 by (simp add: field_simps)
  show ?thesis
    unfolding half_to_float_def binary16_value_def Let_def half_sign half_exp half_frac
      E31 E0 T0 E_def [symmetric] T_def [symmetric]
    using n s by auto
qed


lemma is_binary64I:
  "\<bar>m\<bar> < 2 ^ 53 \<Longrightarrow> - 1074 \<le> e \<Longrightarrow> e \<le> 971 \<Longrightarrow> x = of_int m * 2 powi e \<Longrightarrow> is_binary64 x"
  unfolding is_binary64_def by blast

text \<open>
  Every operand and every result of the arithmetic of \<open>half_to_float\<close> is a binary64 value,
  so binary64 arithmetic is exact there: \<open>f / 1024.0\<close>, \<open>1.0 + f / 1024.0\<close>, the powers of
  two, and the two products of each return expression (with the sign factor of magnitude 1).
\<close>

lemma half_to_float_exact:
  assumes "f < 1024" "e < 31"
  shows "is_binary64 (real f / 1024)"
    and "is_binary64 (1 + real f / 1024)"
    and "is_binary64 (2 powi (int e - 15))"
    and "is_binary64 (2 powi (- 14))"
    and "is_binary64 (1 * (real f / 1024))"
    and "is_binary64 (1 * (real f / 1024) * 2 powi (- 14))"
    and "is_binary64 (1 * (1 + real f / 1024))"
    and "is_binary64 (1 * (1 + real f / 1024) * 2 powi (int e - 15))"
proof -
  have p10: "(2::real) powi (- 10) = 1 / 1024" by (simp add: power_int_minus)
  show a: "is_binary64 (real f / 1024)"
    using assms by (intro is_binary64I [of "int f" "- 10"]) (simp_all add: p10)
  show b: "is_binary64 (1 + real f / 1024)"
    using assms by (intro is_binary64I [of "1024 + int f" "- 10"]) (simp_all add: p10 field_simps)
  show "is_binary64 (2 powi (int e - 15))"
    using assms by (intro is_binary64I [of 1 "int e - 15"]) simp_all
  show "is_binary64 (2 powi (- 14))"
    by (intro is_binary64I [of 1 "- 14"]) simp_all
  show "is_binary64 (1 * (real f / 1024))" using a by simp
  show "is_binary64 (1 * (1 + real f / 1024))" using b by simp
  show "is_binary64 (1 * (real f / 1024) * 2 powi (- 14))"
    using assms powi_m24 by (intro is_binary64I [of "int f" "- 24"]) (simp_all add: field_simps)
  show "is_binary64 (1 * (1 + real f / 1024) * 2 powi (int e - 15))"
    using assms by (intro is_binary64I [of "1024 + int f" "int e - 25"]) (simp_all add: powi_shift10 field_simps)
qed

text \<open>
  C6: \<open>half_to_float\<close> decodes IEEE-754 binary16. \<open>0x3C00\<close> is \<open>1.0\<close>, \<open>0x0000\<close> is \<open>0.0\<close>,
  \<open>0x7C00\<close> is plus infinity, \<open>0x8000\<close> (exponent and mantissa zero, sign set) is \<open>-0.0\<close>, and
  for every 16-bit input the result is the binary16 value of the sign, exponent and mantissa
  fields, subnormals, infinities and NaN included.
\<close>

theorem half_to_float_ieee:
  "half_to_float 0x3C00 = Finite False 1 \<and>
   half_to_float 0x0000 = Finite False 0 \<and>
   half_to_float 0x7C00 = Infinity False \<and>
   half_to_float 0x8000 = Finite True 0 \<and>
   (\<forall>h. half_to_float h = binary16_value h)"
proof -
  have "half_to_float 0x3C00 = Finite False 1" by (simp add: half_to_float_def)
  moreover have "half_to_float 0x0000 = Finite False 0" by (simp add: half_to_float_def)
  moreover have "half_to_float 0x7C00 = Infinity False" by (simp add: half_to_float_def)
  moreover have "half_to_float 0x8000 = Finite True 0" by (simp add: half_to_float_def)
  ultimately show ?thesis using half_to_float_binary16 by simp
qed


subsection \<open>The fixed-stride-32 scan\<close>

lemma ebind_Inr [simp]: "ebind (Inr x) f = f x"
  by (simp add: ebind_def)

lemma ebind_Inl [simp]: "ebind (Inl e) f = Inl e"
  by (simp add: ebind_def)

lemma unpack_from_ok: "off + k \<le> length p \<Longrightarrow> unpack_from k p off = Inr (take k (drop off p))"
  by (simp add: unpack_from_def)

lemma unpack_I_ok: "off + 4 \<le> length p \<Longrightarrow> unpack_I p off = Inr (u32v p off)"
  by (simp add: unpack_I_def unpack_from_ok u32v_def)

lemma unpack_H_ok: "off + 2 \<le> length p \<Longrightarrow> unpack_H p off = Inr (u16v p off)"
  by (simp add: unpack_H_def unpack_from_ok u16v_def)

lemma take_drop_take: "a + k \<le> m \<Longrightarrow> take k (drop a (take m xs)) = take k (drop a xs)"
  by (simp add: drop_take min_def)

lemma unpack_3f_ok:
  "off + 12 \<le> length p \<Longrightarrow>
   unpack_3f p off = Inr (f32v p off, f32v p (off + 4), f32v p (off + 8))"
  by (simp add: unpack_3f_def unpack_from_ok f32v_def drop_take min_def add.commute)

lemma unpack_2f_ok:
  "off + 8 \<le> length p \<Longrightarrow> unpack_2f p off = Inr (f32v p off, f32v p (off + 4))"
  by (simp add: unpack_2f_def unpack_from_ok f32v_def drop_take min_def add.commute)

lemma sample_loop_ok:
  "\<forall>i\<in>set is. ib_off + i * 2 + 2 \<le> length p \<Longrightarrow>
   sample_loop p ib_off vcount is = Inr (list_all (\<lambda>i. u16v p (ib_off + 2 * i) < vcount) is)"
proof (induction "is")
  case Nil
  then show ?case by simp
next
  case (Cons i "is")
  then show ?case by (simp add: unpack_H_ok mult.commute)
qed

lemma scan_step_ok:
  assumes "off + 4 \<le> length p"
  shows "scan_step p off = Inr (if stride32_ok p off then Some (block_at p off) else None)"
proof -
  define vcount where "vcount = u32v p off"
  define tag_off where "tag_off = off + 4 + vcount * 32"
  define tag where "tag = u32v p tag_off"
  define ib_bytes where "ib_bytes = u32v p (tag_off + 4)"
  define coords where "coords = (fabs_le (f32v p (off + 4)) 200000 \<and>
     fabs_le (f32v p (off + 8)) 200000 \<and> fabs_le (f32v p (off + 12)) 200000)"
  define sampled where
    "sampled = list_all (\<lambda>i. u16v p (tag_off + 8 + 2 * i) < vcount) [0..<min 10 (ib_bytes div 2)]"
  have ok: "stride32_ok p off = (3 \<le> vcount \<and> vcount \<le> 2000000 \<and> (tag = 101 \<or> tag = 102)
       \<and> 0 < ib_bytes \<and> even ib_bytes \<and> ib_bytes \<le> 500000000
       \<and> 3 \<le> ib_bytes div 2 \<and> 3 dvd ib_bytes div 2
       \<and> tag_off + 8 + ib_bytes \<le> length p \<and> coords \<and> sampled)"
    unfolding stride32_ok_def Let_def vcount_def tag_off_def tag_def ib_bytes_def coords_def
      sampled_def by (simp add: conj_ac)
  have blk: "block_at p off = \<lparr>b_off = off, b_vcount = vcount, b_vb_off = off + 4,
       b_vb_size = vcount * 32, b_tag = tag, b_ib_bytes = ib_bytes, b_ib_off = tag_off + 8,
       b_end_off = tag_off + 8 + ib_bytes, b_stride = 32\<rparr>"
    unfolding block_at_def Let_def vcount_def tag_off_def tag_def ib_bytes_def by simp
  have step: "scan_step p off =
      (if vcount < 3 \<or> vcount > 2000000 then Inr None else
       if tag_off + 8 > length p then Inr None else
       ebind (unpack_I p tag_off) (\<lambda>tag.
       if tag \<noteq> 101 \<and> tag \<noteq> 102 then Inr None else
       ebind (unpack_I p (tag_off + 4)) (\<lambda>ib_bytes.
       if ib_bytes \<le> 0 \<or> ib_bytes > 500000000 \<or> ib_bytes mod 2 \<noteq> 0 then Inr None else
       if tag_off + 8 + ib_bytes > length p then Inr None else
       if ib_bytes div 2 < 3 \<or> (ib_bytes div 2) mod 3 \<noteq> 0 then Inr None else
       ebind (unpack_3f p (off + 4)) (\<lambda>(x, y, z).
       if \<not> (fabs_le x 200000 \<and> fabs_le y 200000 \<and> fabs_le z 200000) then Inr None else
       ebind (sample_loop p (tag_off + 8) vcount [0..<min 10 (ib_bytes div 2)]) (\<lambda>ok.
       if \<not> ok then Inr None else
       Inr (Some \<lparr>b_off = off, b_vcount = vcount, b_vb_off = off + 4, b_vb_size = vcount * 32,
                  b_tag = tag, b_ib_bytes = ib_bytes, b_ib_off = tag_off + 8,
                  b_end_off = tag_off + 8 + ib_bytes, b_stride = 32\<rparr>))))))"
    unfolding scan_step_def Let_def using assms
    by (simp only: unpack_I_ok ebind_Inr vcount_def [symmetric] tag_off_def [symmetric])
  show ?thesis
  proof (cases "3 \<le> vcount \<and> vcount \<le> 2000000 \<and> tag_off + 8 \<le> length p")
    case False
    then have "scan_step p off = Inr None" unfolding step by auto
    moreover have "\<not> stride32_ok p off" using False unfolding ok by auto
    ultimately show ?thesis by simp
  next
    case True
    have r1: "unpack_I p tag_off = Inr tag" "unpack_I p (tag_off + 4) = Inr ib_bytes"
      using True by (simp_all add: unpack_I_ok tag_def ib_bytes_def)
    have r2: "unpack_3f p (off + 4) = Inr (f32v p (off + 4), f32v p (off + 8), f32v p (off + 12))"
      using True unpack_3f_ok [of "off + 4" p] by (simp add: tag_off_def add.assoc)
    have step2: "scan_step p off =
      (if tag \<noteq> 101 \<and> tag \<noteq> 102 then Inr None else
       if ib_bytes \<le> 0 \<or> ib_bytes > 500000000 \<or> ib_bytes mod 2 \<noteq> 0 then Inr None else
       if tag_off + 8 + ib_bytes > length p then Inr None else
       if ib_bytes div 2 < 3 \<or> (ib_bytes div 2) mod 3 \<noteq> 0 then Inr None else
       if \<not> coords then Inr None else
       ebind (sample_loop p (tag_off + 8) vcount [0..<min 10 (ib_bytes div 2)]) (\<lambda>ok.
       if \<not> ok then Inr None else Inr (Some (block_at p off))))"
      unfolding step blk using True by (simp add: r1 r2 coords_def)
    show ?thesis
    proof (cases "(tag = 101 \<or> tag = 102) \<and> 0 < ib_bytes \<and> even ib_bytes \<and> ib_bytes \<le> 500000000
       \<and> 3 \<le> ib_bytes div 2 \<and> 3 dvd ib_bytes div 2 \<and> tag_off + 8 + ib_bytes \<le> length p \<and> coords")
      case False
      then have "scan_step p off = Inr None"
        unfolding step2 by (auto simp: dvd_eq_mod_eq_0 odd_iff_mod_2_eq_one)
      moreover have "\<not> stride32_ok p off" using False unfolding ok by auto
      ultimately show ?thesis by simp
    next
      case ok2: True
      have "sample_loop p (tag_off + 8) vcount [0..<min 10 (ib_bytes div 2)] = Inr sampled"
        unfolding sampled_def using ok2 by (intro sample_loop_ok) auto
      then have "scan_step p off = Inr (if sampled then Some (block_at p off) else None)"
        unfolding step2 using ok2 by (auto simp: dvd_eq_mod_eq_0)
      moreover have "stride32_ok p off = sampled" using True ok2 unfolding ok by auto
      ultimately show ?thesis by simp
    qed
  qed
qed

lemma scan_loop_ok:
  "\<forall>off\<in>set offs. off + 4 \<le> length p \<Longrightarrow>
   scan_loop p offs out = Inr (out @ map (block_at p) (filter (stride32_ok p) offs))"
  by (induction offs arbitrary: out) (simp_all add: scan_step_ok)

lemma scan_window_in: "off \<in> set (scan_window p start) \<Longrightarrow> off + 4 \<le> length p"
  by (auto simp: scan_window_def)

lemma scan_eq:
  "scan_scn0_stride32_mesh_blocks p start =
     Inr (map (block_at p) (filter (stride32_ok p) (scan_window p start)))"
  unfolding scan_scn0_stride32_mesh_blocks_def
  using scan_loop_ok [of "scan_window p start" p "[]"] scan_window_in by simp

lemma stride32_ok_in_window:
  "stride32_ok p off \<Longrightarrow> nat (max 0 start) \<le> off \<Longrightarrow> off \<in> set (scan_window p start)"
  unfolding stride32_ok_def scan_window_def Let_def by auto


lemma le_nat_replicate0 [simp]: "le_nat (replicate k 0) = 0"
  by (induction k) simp_all

lemma upt_10: "[0..<10] = [0, 1, 2, 3, 4, 5, 6, 7, 8, Suc 8]" "[0..<6] = [0, 1, 2, 3, 4, Suc 4]"
  "[0..<3] = [0, 1, Suc 1]" "[0..<4] = [0, 1, 2, Suc 2]"
  by (simp_all add: upt_rec)

lemma payload_two_faces_ok: "stride32_ok payload_two_faces 0"
proof -
  have len: "length payload_two_faces = 152"
    by (simp add: payload_two_faces_def)
  have vc: "u32v payload_two_faces 0 = 4"
    by (simp add: u32v_def payload_two_faces_def)
  have tg: "u32v payload_two_faces 132 = 102"
    by (simp add: u32v_def payload_two_faces_def)
  have ib: "u32v payload_two_faces 136 = 12"
    by (simp add: u32v_def payload_two_faces_def)
  have fl: "f32v payload_two_faces 4 = Finite False 0" "f32v payload_two_faces 8 = Finite False 0"
    "f32v payload_two_faces 12 = Finite False 0"
    by (simp_all add: f32v_def f32_le_def f32_to_float_def payload_two_faces_def)
  have ix: "list_all (\<lambda>i. u16v payload_two_faces (140 + 2 * i) < 4) [0..<6]"
    by (simp add: u16v_def payload_two_faces_def upt_10)
  show ?thesis
    unfolding stride32_ok_def Let_def using ix by (simp add: vc tg ib fl len)
qed

text \<open>
  C3: the scan never fails, and every block that it returns sits at an offset where all the
  predicates hold (\<open>stride32_ok\<close>: \<open>vcount\<close> in \<open>[3, 2000000]\<close>; the tag after the
  \<open>vcount * 32\<close> bytes of vertices is 101 or 102; \<open>ib_bytes\<close> is positive, even and at most
  500000000; the index count \<open>ib_bytes / 2\<close> is at least 3 and divisible by 3; the block lies
  within the payload; each coordinate of the first vertex has an absolute value of at most
  200000; each of the first \<open>min(10, index count)\<close> indices is below \<open>vcount\<close>), with the fields
  read there. Every byte offset from \<open>max(0, start)\<close> on where the predicates hold contributes
  a block, and the blocks come in increasing offset order.
\<close>

theorem scan_scn0_stride32_mesh_blocks_spec:
  "\<exists>bs. scan_scn0_stride32_mesh_blocks payload start = Inr bs
     \<and> (\<forall>b\<in>set bs. stride32_ok payload (b_off b) \<and> b = block_at payload (b_off b))
     \<and> (\<forall>off. nat (max 0 start) \<le> off \<and> stride32_ok payload off \<longrightarrow> off \<in> b_off ` set bs)
     \<and> map b_off bs = filter (stride32_ok payload) (scan_window payload start)
     \<and> sorted_wrt (<) (map b_off bs)"
proof -
  define bs where "bs = map (block_at payload) (filter (stride32_ok payload) (scan_window payload start))"
  have off: "\<And>off. b_off (block_at payload off) = off"
    by (simp add: block_at_def Let_def)
  have m: "map b_off bs = filter (stride32_ok payload) (scan_window payload start)"
    unfolding bs_def by (simp add: off comp_def)
  have "scan_scn0_stride32_mesh_blocks payload start = Inr bs"
    unfolding bs_def by (rule scan_eq)
  moreover have "\<forall>b\<in>set bs. stride32_ok payload (b_off b) \<and> b = block_at payload (b_off b)"
    unfolding bs_def by (auto simp: off)
  moreover have "\<forall>off. nat (max 0 start) \<le> off \<and> stride32_ok payload off \<longrightarrow> off \<in> b_off ` set bs"
  proof (intro allI impI)
    fix off assume a: "nat (max 0 start) \<le> off \<and> stride32_ok payload off"
    then have "off \<in> set (filter (stride32_ok payload) (scan_window payload start))"
      using stride32_ok_in_window [of payload off start] by simp
    then show "off \<in> b_off ` set bs" unfolding m [symmetric] by simp
  qed
  moreover have "sorted_wrt (<) (map b_off bs)"
    unfolding m scan_window_def by (rule sorted_wrt_filter) simp
  ultimately show ?thesis using m by blast
qed

theorem scan_scn0_stride32_mesh_blocks_spec_witness:
  "stride32_ok payload_two_faces 0 \<and>
   (\<exists>bs. scan_scn0_stride32_mesh_blocks payload_two_faces 0 = Inr bs
      \<and> block_at payload_two_faces 0 \<in> set bs)"
proof -
  obtain bs where bs: "scan_scn0_stride32_mesh_blocks payload_two_faces 0 = Inr bs"
    and snd: "\<forall>b\<in>set bs. stride32_ok payload_two_faces (b_off b) \<and> b = block_at payload_two_faces (b_off b)"
    and cmp: "\<forall>off. nat (max 0 0) \<le> off \<and> stride32_ok payload_two_faces off \<longrightarrow> off \<in> b_off ` set bs"
    using scan_scn0_stride32_mesh_blocks_spec [of payload_two_faces 0] by blast
  from cmp payload_two_faces_ok have "0 \<in> b_off ` set bs" by simp
  then obtain b where "b \<in> set bs" "b_off b = 0" by auto
  with snd have "block_at payload_two_faces 0 \<in> set bs" by metis
  with bs payload_two_faces_ok show ?thesis by blast
qed


subsection \<open>The fixed-stride-32 decoder\<close>

lemma decode_vertex32_ok:
  assumes "vb_off + i * 32 + 32 \<le> length p"
  shows "\<exists>pos nrm uv. decode_vertex32 fsub p vb_off fl sw i = Inr (pos, nrm, uv)"
proof -
  have "unpack_3f p (vb_off + i * 32) = Inr (f32v p (vb_off + i * 32), f32v p (vb_off + i * 32 + 4), f32v p (vb_off + i * 32 + 8))"
    using assms by (intro unpack_3f_ok) simp
  moreover have "unpack_3f p (vb_off + i * 32 + 12) = Inr (f32v p (vb_off + i * 32 + 12), f32v p (vb_off + i * 32 + 12 + 4), f32v p (vb_off + i * 32 + 12 + 8))"
    using assms by (intro unpack_3f_ok) simp
  moreover have "unpack_2f p (vb_off + i * 32 + 24) = Inr (f32v p (vb_off + i * 32 + 24), f32v p (vb_off + i * 32 + 24 + 4))"
    using assms by (intro unpack_2f_ok) simp
  ultimately show ?thesis
    unfolding decode_vertex32_def Let_def by (simp add: split_def)
qed

lemma decode_vertices32_ok:
  "\<forall>i\<in>set is. vb_off + i * 32 + 32 \<le> length p \<Longrightarrow>
   \<exists>vs ns us. decode_vertices32 fsub p vb_off fl sw is (v0, n0, u0) =
       Inr (v0 @ vs, n0 @ map Some ns, u0 @ map Some us)
     \<and> length vs = length is \<and> length ns = length is \<and> length us = length is"
proof (induction "is" arbitrary: v0 n0 u0)
  case Nil
  show ?case
    by (intro exI [of _ "[]"]) simp
next
  case (Cons i "is")
  obtain pos nrm uv where d: "decode_vertex32 fsub p vb_off fl sw i = Inr (pos, nrm, uv)"
    using decode_vertex32_ok [of vb_off i p fsub fl sw] Cons.prems by auto
  obtain vs ns us where r: "decode_vertices32 fsub p vb_off fl sw is (v0 @ [pos], n0 @ [Some nrm], u0 @ [Some uv]) =
       Inr ((v0 @ [pos]) @ vs, (n0 @ [Some nrm]) @ map Some ns, (u0 @ [Some uv]) @ map Some us)"
     and l: "length vs = length is" "length ns = length is" "length us = length is"
    using Cons.IH [of "v0 @ [pos]" "n0 @ [Some nrm]" "u0 @ [Some uv]"] Cons.prems by auto
  have "decode_vertices32 fsub p vb_off fl sw (i # is) (v0, n0, u0) =
      Inr (v0 @ (pos # vs), n0 @ map Some (nrm # ns), u0 @ map Some (uv # us))"
    using d r by simp
  then show ?case
    using l by (intro exI [of _ "pos # vs"] exI [of _ "nrm # ns"] exI [of _ "uv # us"]) simp
qed

lemma split_le_2: "split_le 2 k bs = map (\<lambda>j. le_nat (take 2 (drop (2 * j) bs))) [0..<k]"
proof (induction k arbitrary: bs)
  case 0
  then show ?case by simp
next
  case (Suc k)
  have "map (\<lambda>j. le_nat (take 2 (drop (2 * j) bs))) [0..<Suc k] =
        le_nat (take 2 bs) # map (\<lambda>j. le_nat (take 2 (drop (2 * Suc j) bs))) [0..<k]"
    by (simp only: upt_conv_Cons [of 0 "Suc k"] map_Suc_upt [symmetric]) (simp add: comp_def)
  also have "\<dots> = le_nat (take 2 bs) # map (\<lambda>j. le_nat (take 2 (drop (2 * j) (drop 2 bs)))) [0..<k]"
    by (simp add: add.commute)
  finally show ?case using Suc.IH [of "drop 2 bs"] by simp
qed

lemma unpack_Hs_ok:
  assumes "off + 2 * k \<le> length p"
  shows "unpack_Hs k p off = Inr (map (\<lambda>j. u16v p (off + 2 * j)) [0..<k])"
proof -
  have "map (\<lambda>j. le_nat (take 2 (drop (2 * j) (take (2 * k) (drop off p))))) [0..<k] =
        map (\<lambda>j. u16v p (off + 2 * j)) [0..<k]"
  proof (rule map_cong [OF refl])
    fix j assume "j \<in> set [0..<k]"
    then have "2 * j + 2 \<le> 2 * k" by simp
    then show "le_nat (take 2 (drop (2 * j) (take (2 * k) (drop off p)))) = u16v p (off + 2 * j)"
      by (simp add: u16v_def drop_take min_def add.commute)
  qed
  then show ?thesis
    using assms by (simp add: unpack_Hs_def unpack_from_ok split_le_2)
qed

lemma triangle_list_ok:
  "length xs = 3 * n \<Longrightarrow>
   triangle_list xs = Inr (map (\<lambda>k. (xs ! (3 * k), xs ! (3 * k + 1), xs ! (3 * k + 2))) [0..<n])"
proof (induction n arbitrary: xs)
  case 0
  then show ?case by simp
next
  case (Suc n)
  then obtain a b c rest where xs: "xs = a # b # c # rest" and len: "length rest = 3 * n"
    by (cases xs; cases "tl xs"; cases "tl (tl xs)") auto
  have "map (\<lambda>k. (xs ! (3 * k), xs ! (3 * k + 1), xs ! (3 * k + 2))) [0..<Suc n] =
        (a, b, c) # map (\<lambda>k. (xs ! (3 * Suc k), xs ! (3 * Suc k + 1), xs ! (3 * Suc k + 2))) [0..<n]"
    by (simp only: upt_conv_Cons [of 0 "Suc n"] map_Suc_upt [symmetric]) (simp add: comp_def xs)
  also have "\<dots> = (a, b, c) # map (\<lambda>k. (rest ! (3 * k), rest ! (3 * k + 1), rest ! (3 * k + 2))) [0..<n]"
    by (simp add: xs)
  finally show ?case using Suc.IH [OF len] by (simp add: xs)
qed


lemma block_at_fields [simp]:
  "b_off (block_at p off) = off"
  "b_vcount (block_at p off) = u32v p off"
  "b_vb_off (block_at p off) = off + 4"
  "b_ib_off (block_at p off) = off + 4 + u32v p off * 32 + 8"
  "b_ib_bytes (block_at p off) = u32v p (off + 4 + u32v p off * 32 + 4)"
  by (simp_all add: block_at_def Let_def)

lemma decode_block_ok:
  assumes ok: "stride32_ok p off"
  defines "blk \<equiv> block_at p off"
  shows "\<exists>m. decode_scn0_stride32_mesh_block fsub p blk fl sw = Inr m
     \<and> length (mesh_vertices m) = b_vcount blk
     \<and> length (mesh_normals m) = b_vcount blk
     \<and> length (mesh_uvs m) = b_vcount blk
     \<and> None \<notin> set (mesh_normals m) \<and> None \<notin> set (mesh_uvs m)
     \<and> mesh_faces m = map (\<lambda>k. (u16v p (b_ib_off blk + 2 * (3 * k)),
                                 u16v p (b_ib_off blk + 2 * (3 * k + 1)),
                                 u16v p (b_ib_off blk + 2 * (3 * k + 2))))
                          [0..<b_ib_bytes blk div 6]"
proof -
  define vcount where "vcount = b_vcount blk"
  define ib_off where "ib_off = b_ib_off blk"
  define ib_bytes where "ib_bytes = b_ib_bytes blk"
  define n where "n = ib_bytes div 6"
  have f: "ib_off + ib_bytes \<le> length p" "even ib_bytes" "3 dvd ib_bytes div 2"
    "ib_off = off + 4 + vcount * 32 + 8" "b_vb_off blk = off + 4"
    using ok unfolding stride32_ok_def Let_def vcount_def ib_off_def ib_bytes_def blk_def
    by (simp_all add: add.assoc)
  have cnt: "ib_bytes div 2 = 3 * n" "2 * (ib_bytes div 2) = ib_bytes"
    using f(2,3) unfolding n_def by (auto elim!: evenE dvdE)
  have "\<forall>i\<in>set [0..<vcount]. off + 4 + i * 32 + 32 \<le> length p"
    using f(1,4) by auto
  then obtain vs ns us where
    v: "decode_vertices32 fsub p (off + 4) fl sw [0..<vcount] ([], [], []) =
          Inr ([] @ vs, [] @ map Some ns, [] @ map Some us)"
    and l: "length vs = length [0..<vcount]" "length ns = length [0..<vcount]"
      "length us = length [0..<vcount]"
    using decode_vertices32_ok [of "[0..<vcount]" "off + 4" p fsub fl sw "[]" "[]" "[]"] by blast
  define xs where "xs = map (\<lambda>j. u16v p (ib_off + 2 * j)) [0..<ib_bytes div 2]"
  have i: "unpack_Hs (ib_bytes div 2) p ib_off = Inr xs"
    unfolding xs_def using f(1) cnt(2) by (intro unpack_Hs_ok) simp
  have "length xs = 3 * n" by (simp add: xs_def cnt)
  then have t: "triangle_list xs = Inr (map (\<lambda>k. (xs ! (3 * k), xs ! (3 * k + 1), xs ! (3 * k + 2))) [0..<n])"
    by (rule triangle_list_ok)
  have "map (\<lambda>k. (xs ! (3 * k), xs ! (3 * k + 1), xs ! (3 * k + 2))) [0..<n] =
        map (\<lambda>k. (u16v p (ib_off + 2 * (3 * k)), u16v p (ib_off + 2 * (3 * k + 1)),
                   u16v p (ib_off + 2 * (3 * k + 2)))) [0..<n]"
    by (rule map_cong [OF refl]) (simp add: xs_def cnt)
  with t have t': "triangle_list xs = Inr (map (\<lambda>k. (u16v p (ib_off + 2 * (3 * k)),
        u16v p (ib_off + 2 * (3 * k + 1)), u16v p (ib_off + 2 * (3 * k + 2)))) [0..<n])"
    by simp
  have "decode_scn0_stride32_mesh_block fsub p blk fl sw =
      Inr \<lparr>mesh_name = ''SCN0_mesh_'' @ hex_str (b_off blk), mesh_decl = 0,
           mesh_vertices = vs, mesh_normals = map Some ns, mesh_uvs = map Some us,
           mesh_faces = map (\<lambda>k. (u16v p (ib_off + 2 * (3 * k)),
               u16v p (ib_off + 2 * (3 * k + 1)), u16v p (ib_off + 2 * (3 * k + 2)))) [0..<n],
           mesh_maps = [], mesh_subsets = [], mesh_material_sets = []\<rparr>"
    unfolding decode_scn0_stride32_mesh_block_def Let_def
      vcount_def [symmetric] ib_off_def [symmetric] ib_bytes_def [symmetric] f(5)
    using v i t' by simp
  then show ?thesis
    using l unfolding vcount_def [symmetric] ib_off_def [symmetric] ib_bytes_def [symmetric]
      n_def [symmetric]
    by auto
qed


lemma scan_member:
  assumes "scan_scn0_stride32_mesh_blocks p start = Inr bs" "blk \<in> set bs"
  shows "\<exists>off. stride32_ok p off \<and> blk = block_at p off"
  using assms unfolding scan_eq by auto

lemma scan_accepts:
  assumes "stride32_ok p off"
  shows "\<exists>bs. scan_scn0_stride32_mesh_blocks p 0 = Inr bs \<and> block_at p off \<in> set bs"
  using assms stride32_ok_in_window [of p off 0] unfolding scan_eq by simp

text \<open>
  C10: for a block that the scan returns, the decoder returns a mesh with exactly \<open>vcount\<close>
  vertices, normals and UVs, none of the normals and UVs being \<open>None\<close>, and with
  \<open>ib_bytes / 6\<close> faces: face \<open>k\<close> is the \<open>k\<close>-th triple of consecutive 16-bit indices of the
  index buffer.
\<close>

theorem decode_scn0_stride32_mesh_block_shape:
  assumes "scan_scn0_stride32_mesh_blocks payload start = Inr bs" and "blk \<in> set bs"
  shows "\<exists>m. decode_scn0_stride32_mesh_block fsub payload blk flip_v swap_yz = Inr m
     \<and> length (mesh_vertices m) = b_vcount blk
     \<and> length (mesh_normals m) = b_vcount blk
     \<and> length (mesh_uvs m) = b_vcount blk
     \<and> None \<notin> set (mesh_normals m) \<and> None \<notin> set (mesh_uvs m)
     \<and> length (mesh_faces m) = b_ib_bytes blk div 6
     \<and> mesh_faces m = map (\<lambda>k. (u16v payload (b_ib_off blk + 6 * k),
                                 u16v payload (b_ib_off blk + 6 * k + 2),
                                 u16v payload (b_ib_off blk + 6 * k + 4)))
                          [0..<b_ib_bytes blk div 6]"
proof -
  obtain off where off: "stride32_ok payload off" "blk = block_at payload off"
    using scan_member [OF assms] by blast
  obtain m where m: "decode_scn0_stride32_mesh_block fsub payload blk flip_v swap_yz = Inr m"
    "length (mesh_vertices m) = b_vcount blk" "length (mesh_normals m) = b_vcount blk"
    "length (mesh_uvs m) = b_vcount blk" "None \<notin> set (mesh_normals m)" "None \<notin> set (mesh_uvs m)"
    and fs: "mesh_faces m = map (\<lambda>k. (u16v payload (b_ib_off blk + 2 * (3 * k)),
                                 u16v payload (b_ib_off blk + 2 * (3 * k + 1)),
                                 u16v payload (b_ib_off blk + 2 * (3 * k + 2))))
                          [0..<b_ib_bytes blk div 6]"
    using decode_block_ok [OF off(1), of fsub flip_v swap_yz] unfolding off(2) by blast
  have a: "\<And>k. b_ib_off blk + 2 * (3 * k) = b_ib_off blk + 6 * k"
    "\<And>k. b_ib_off blk + 2 * (3 * k + 1) = b_ib_off blk + 6 * k + 2"
    "\<And>k. b_ib_off blk + 2 * (3 * k + 2) = b_ib_off blk + 6 * k + 4"
    by simp_all
  have "length (mesh_faces m) = b_ib_bytes blk div 6" unfolding fs by simp
  with m fs show ?thesis unfolding a by blast
qed

lemma payload_two_faces_reads:
  "b_vcount (block_at payload_two_faces 0) = 4"
  "map (\<lambda>k. (u16v payload_two_faces (b_ib_off (block_at payload_two_faces 0) + 6 * k),
             u16v payload_two_faces (b_ib_off (block_at payload_two_faces 0) + 6 * k + 2),
             u16v payload_two_faces (b_ib_off (block_at payload_two_faces 0) + 6 * k + 4)))
       [0..<b_ib_bytes (block_at payload_two_faces 0) div 6] = [(0, 1, 2), (2, 1, 3)]"
proof -
  have u: "[0..<2] = [0, Suc 0]" by (simp add: upt_rec)
  have r: "u32v payload_two_faces 0 = 4" "u32v payload_two_faces 136 = 12"
    by (simp_all add: u32v_def payload_two_faces_def)
  show "b_vcount (block_at payload_two_faces 0) = 4" by (simp add: r)
  show "map (\<lambda>k. (u16v payload_two_faces (b_ib_off (block_at payload_two_faces 0) + 6 * k),
             u16v payload_two_faces (b_ib_off (block_at payload_two_faces 0) + 6 * k + 2),
             u16v payload_two_faces (b_ib_off (block_at payload_two_faces 0) + 6 * k + 4)))
       [0..<b_ib_bytes (block_at payload_two_faces 0) div 6] = [(0, 1, 2), (2, 1, 3)]"
    by (simp add: r u) (simp add: u16v_def payload_two_faces_def)
qed

theorem decode_scn0_stride32_mesh_block_shape_witness:
  "\<exists>m. decode_scn0_stride32_mesh_block fsub_exact payload_two_faces
          (block_at payload_two_faces 0) True False = Inr m
     \<and> length (mesh_vertices m) = 4 \<and> length (mesh_normals m) = 4 \<and> length (mesh_uvs m) = 4
     \<and> mesh_faces m = [(0, 1, 2), (2, 1, 3)]"
proof -
  obtain bs where bs: "scan_scn0_stride32_mesh_blocks payload_two_faces 0 = Inr bs"
    "block_at payload_two_faces 0 \<in> set bs"
    using scan_accepts [OF payload_two_faces_ok] by blast
  show ?thesis
    using decode_scn0_stride32_mesh_block_shape [OF bs, of fsub_exact True False]
    unfolding payload_two_faces_reads by blast
qed


subsection \<open>Face indices and the vertex count\<close>

lemma le_nat_bound: "le_nat bs < 256 ^ length bs"
proof (induction bs)
  case Nil
  then show ?case by simp
next
  case (Cons b bs)
  have "unat b < 256" using unsigned_less [of b, where ?'a = nat] by simp
  then have "unat b + 256 * le_nat bs < 256 + 256 * le_nat bs" by simp
  also have "\<dots> = 256 * Suc (le_nat bs)" by simp
  also have "\<dots> \<le> 256 * 256 ^ length bs"
    using Cons.IH by (intro mult_le_mono2) simp
  finally show ?case by simp
qed

lemma u16v_bound: "u16v p off < 65536"
proof -
  have "le_nat (take 2 (drop off p)) < 256 ^ length (take 2 (drop off p))"
    by (rule le_nat_bound)
  also have "\<dots> \<le> (256::nat) ^ 2"
    by (intro power_increasing) simp_all
  finally show ?thesis by (simp add: u16v_def)
qed

lemma concat_triples:
  "concat (map (\<lambda>k. [f (3 * k), f (3 * k + 1), f (3 * k + 2)]) [0..<n]) = map f [0..<3 * n]"
proof (induction n)
  case 0
  then show ?case by simp
next
  case (Suc n)
  have e: "3 * Suc n = Suc (Suc (Suc (3 * n)))" by simp
  have "[0..<3 * Suc n] = [0..<3 * n] @ [3 * n, 3 * n + 1, 3 * n + 2]"
    unfolding e by simp
  then show ?case using Suc.IH by simp
qed


lemma payload_index7_reads:
  "length payload_index7 = 132"
  "u32v payload_index7 0 = 3" "u32v payload_index7 100 = 101" "u32v payload_index7 104 = 24"
  "f32v payload_index7 4 = Finite False 0" "f32v payload_index7 8 = Finite False 0"
  "f32v payload_index7 12 = Finite False 0"
  by (simp_all add: u32v_def f32v_def f32_le_def f32_to_float_def payload_index7_def)

lemma payload_index7_indices:
  "map (\<lambda>j. u16v payload_index7 (108 + 2 * j)) [0, 1, 2, 3, 4, 5, 6, 7, 8, 9, 10, 11] =
     [0, 1, 2, 0, 1, 2, 0, 1, 2, 0, 7, 2]"
  by (simp add: u16v_def payload_index7_def)

lemma payload_index7_ok: "stride32_ok payload_index7 0"
proof -
  have "list_all (\<lambda>i. u16v payload_index7 (108 + 2 * i) < 3) [0..<10]"
    using payload_index7_indices by (simp add: upt_10)
  then show ?thesis
    unfolding stride32_ok_def Let_def by (simp add: payload_index7_reads)
qed

lemma payload_index7_faces:
  "map (\<lambda>k. (u16v payload_index7 (b_ib_off (block_at payload_index7 0) + 2 * (3 * k)),
             u16v payload_index7 (b_ib_off (block_at payload_index7 0) + 2 * (3 * k + 1)),
             u16v payload_index7 (b_ib_off (block_at payload_index7 0) + 2 * (3 * k + 2))))
       [0..<b_ib_bytes (block_at payload_index7 0) div 6] =
   [(0, 1, 2), (0, 1, 2), (0, 1, 2), (0, 7, 2)]"
  using payload_index7_indices by (simp add: payload_index7_reads upt_10)


text \<open>
  The data model's invariant fails on the fixed-stride-32 path: the scan accepts the block of
  \<open>payload_index7\<close> (its first ten indices are below the vertex count 3), and the decoder
  returns a mesh with three vertices and the face \<open>(0, 7, 2)\<close>.
\<close>

theorem face_indices_in_range_counterexample:
  "stride32_ok payload_index7 0 \<and>
   (case scan_scn0_stride32_mesh_blocks payload_index7 0 of
      Inl e \<Rightarrow> False
    | Inr bs \<Rightarrow> block_at payload_index7 0 \<in> set bs) \<and>
   (case decode_scn0_stride32_mesh_block fsub_exact payload_index7 (block_at payload_index7 0)
           True False of
      Inl e \<Rightarrow> False
    | Inr m \<Rightarrow> length (mesh_vertices m) = 3
        \<and> mesh_faces m = [(0, 1, 2), (0, 1, 2), (0, 1, 2), (0, 7, 2)]
        \<and> \<not> face_indices_in_range m)"
proof -
  obtain bs where bs: "scan_scn0_stride32_mesh_blocks payload_index7 0 = Inr bs"
    "block_at payload_index7 0 \<in> set bs"
    using scan_accepts [OF payload_index7_ok] by blast
  obtain m where m: "decode_scn0_stride32_mesh_block fsub_exact payload_index7
        (block_at payload_index7 0) True False = Inr m"
    "length (mesh_vertices m) = b_vcount (block_at payload_index7 0)"
    "mesh_faces m = [(0, 1, 2), (0, 1, 2), (0, 1, 2), (0, 7, 2)]"
    using decode_block_ok [OF payload_index7_ok, of fsub_exact True False]
    unfolding payload_index7_faces by blast
  have "length (mesh_vertices m) = 3" using m(2) by (simp add: payload_index7_reads)
  moreover from this have "\<not> face_indices_in_range m"
    by (simp add: face_indices_in_range_def m(3))
  ultimately show ?thesis using payload_index7_ok bs m(1,3) by simp
qed

text \<open>
  C1, amended: a mesh decoded from a block that the fixed-stride-32 scan returns has exactly
  \<open>vcount\<close> vertices; its face indices are the \<open>ib_bytes / 2\<close> 16-bit values of the index
  buffer, in order, so each is below 65536; and each of the first \<open>min(10, ib_bytes / 2)\<close> of
  them is below the vertex count. The later indices are not compared with the vertex count.
\<close>

theorem stride32_sampled_indices_in_range:
  assumes "scan_scn0_stride32_mesh_blocks payload start = Inr bs" and "blk \<in> set bs"
  shows "\<exists>m. decode_scn0_stride32_mesh_block fsub payload blk flip_v swap_yz = Inr m
     \<and> length (mesh_vertices m) = b_vcount blk
     \<and> length (face_indices m) = b_ib_bytes blk div 2
     \<and> (\<forall>j < min 10 (b_ib_bytes blk div 2). face_indices m ! j < length (mesh_vertices m))
     \<and> (\<forall>j < b_ib_bytes blk div 2. face_indices m ! j = u16v payload (b_ib_off blk + 2 * j)
                                     \<and> face_indices m ! j < 65536)"
proof -
  obtain off where off: "stride32_ok payload off" "blk = block_at payload off"
    using scan_member [OF assms] by blast
  define f where "f = (\<lambda>j. u16v payload (b_ib_off blk + 2 * j))"
  define n where "n = b_ib_bytes blk div 6"
  obtain m where m: "decode_scn0_stride32_mesh_block fsub payload blk flip_v swap_yz = Inr m"
    "length (mesh_vertices m) = b_vcount blk"
    and fs: "mesh_faces m = map (\<lambda>k. (f (3 * k), f (3 * k + 1), f (3 * k + 2))) [0..<n]"
    using decode_block_ok [OF off(1), of fsub flip_v swap_yz] unfolding off(2) f_def n_def by blast
  have ev: "even (b_ib_bytes blk)" "3 dvd b_ib_bytes blk div 2"
    and smp: "list_all (\<lambda>i. f i < b_vcount blk) [0..<min 10 (b_ib_bytes blk div 2)]"
    using off(1) unfolding off(2) stride32_ok_def Let_def f_def by (simp_all add: add.assoc)
  have cnt: "b_ib_bytes blk div 2 = 3 * n"
    using ev unfolding n_def by (auto elim!: evenE dvdE)
  have fi: "face_indices m = map f [0..<3 * n]"
    unfolding face_indices_def fs using concat_triples [of f n] by (simp add: comp_def)
  have "\<forall>j < min 10 (b_ib_bytes blk div 2). face_indices m ! j < length (mesh_vertices m)"
    using smp unfolding fi m(2) cnt by (auto simp: list_all_iff)
  moreover have "\<forall>j < b_ib_bytes blk div 2. face_indices m ! j = u16v payload (b_ib_off blk + 2 * j)
                                     \<and> face_indices m ! j < 65536"
    unfolding fi cnt using u16v_bound by (auto simp: f_def)
  moreover have "length (face_indices m) = b_ib_bytes blk div 2"
    unfolding fi cnt by simp
  ultimately show ?thesis using m by blast
qed

theorem stride32_sampled_indices_in_range_witness:
  "\<exists>m. decode_scn0_stride32_mesh_block fsub_exact payload_index7 (block_at payload_index7 0)
          True False = Inr m
     \<and> length (mesh_vertices m) = 3 \<and> length (face_indices m) = 12
     \<and> face_indices m ! 9 < 3 \<and> face_indices m ! 10 = 7"
proof -
  obtain bs where bs: "scan_scn0_stride32_mesh_blocks payload_index7 0 = Inr bs"
    "block_at payload_index7 0 \<in> set bs"
    using scan_accepts [OF payload_index7_ok] by blast
  have r: "b_vcount (block_at payload_index7 0) = 3" "b_ib_bytes (block_at payload_index7 0) div 2 = 12"
    "b_ib_off (block_at payload_index7 0) = 108"
    by (simp_all add: payload_index7_reads)
  have i: "u16v payload_index7 (108 + 2 * 10) = 7"
    by (simp add: u16v_def payload_index7_def)
  obtain m where m: "decode_scn0_stride32_mesh_block fsub_exact payload_index7
        (block_at payload_index7 0) True False = Inr m"
    "length (mesh_vertices m) = 3" "length (face_indices m) = 12"
    "\<forall>j < min 10 12. face_indices m ! j < length (mesh_vertices m)"
    "\<forall>j < 12. face_indices m ! j = u16v payload_index7 (108 + 2 * j) \<and> face_indices m ! j < 65536"
    using stride32_sampled_indices_in_range [OF bs, of fsub_exact True False] unfolding r by blast
  have "face_indices m ! 9 < 3" using m(2,4) by simp
  moreover have "face_indices m ! 10 = 7" using m(5) i by simp
  ultimately show ?thesis using m(1,2,3) by blast
qed


subsection \<open>The 520-byte declaration block\<close>

lemma unpack_HH_ok:
  "off + 4 \<le> length p \<Longrightarrow> unpack_HH p off = Inr (u16v p off, u16v p (off + 2))"
  by (simp add: unpack_HH_def unpack_from_ok u16v_def drop_take min_def add.commute)

lemma unpack_BBBB_ok:
  "off + 4 \<le> length p \<Longrightarrow>
   unpack_BBBB p off = Inr (u8v p off, u8v p (off + 1), u8v p (off + 2), u8v p (off + 3))"
  by (simp add: unpack_BBBB_def unpack_from_ok u8v_def drop_take min_def add.commute)

lemma read_elems_ok:
  "\<forall>i\<in>set is. i * 8 + 8 \<le> length blk \<Longrightarrow>
   read_elems blk is elems =
     Inr (elems @ takeWhile (\<lambda>e. \<not> is_sentinel e) (map (record_at blk) is)
                @ take 1 (dropWhile (\<lambda>e. \<not> is_sentinel e) (map (record_at blk) is)),
          list_ex is_sentinel (map (record_at blk) is))"
proof (induction "is" arbitrary: elems)
  case Nil
  then show ?case by simp
next
  case (Cons i "is")
  have a: "i * 8 + 4 + 1 = i * 8 + 5" "i * 8 + 4 + 2 = i * 8 + 6" "i * 8 + 4 + 3 = i * 8 + 7"
    by simp_all
  have b: "i * 8 + 4 \<le> length blk" "i * 8 + 4 + 4 \<le> length blk"
    using Cons.prems by simp_all
  have r: "unpack_HH blk (i * 8) = Inr (u16v blk (i * 8), u16v blk (i * 8 + 2))"
    "unpack_BBBB blk (i * 8 + 4) = Inr (u8v blk (i * 8 + 4), u8v blk (i * 8 + 5), u8v blk (i * 8 + 6), u8v blk (i * 8 + 7))"
    using unpack_HH_ok [OF b(1)] unpack_BBBB_ok [OF b(2)] unfolding a .
  show ?case
  proof (cases "u16v blk (i * 8) = 0xFF")
    case True
    then show ?thesis by (simp add: r Let_def is_sentinel_def record_at_def)
  next
    case False
    then show ?thesis
      using Cons.IH [of "elems @ [record_at blk i]"] Cons.prems
      by (simp add: r Let_def is_sentinel_def record_at_def)
  qed
qed

lemma Max_insert_max:
  fixes s :: nat
  assumes "finite A"
  shows "Max (insert (max s x) A) = Max (insert s (insert x A))"
proof (cases "A = {}")
  case True
  then show ?thesis by simp
next
  case False
  then show ?thesis using assms by (simp add: max.assoc)
qed

lemma stride_loop_ok:
  assumes "\<forall>e\<in>set rs. \<not> is_sentinel e" and "sfx = [] \<or> is_sentinel (hd sfx)"
  shows "stride_loop (rs @ sfx) s =
     (if list_ex (\<lambda>(stream, offset, typ, rest). type_size typ = None) rs then None
      else Some (Max (insert s (elem_end ` {e \<in> set rs. fst e = 0}))))"
  using assms(1)
proof (induction rs arbitrary: s)
  case Nil
  show ?case
  proof (cases sfx)
    case Nil
    then show ?thesis by simp
  next
    case (Cons t ts)
    then have "is_sentinel t" using assms(2) by simp
    then show ?thesis using Cons by (cases t) (simp add: is_sentinel_def)
  qed
next
  case (Cons e rs)
  obtain stream offset ty mt us ui where e: "e = (stream, offset, ty, mt, us, ui)"
    by (cases e) auto
  define A where "A = elem_end ` {x \<in> set rs. fst x = 0}"
  define U where "U = list_ex (\<lambda>(stream, offset, typ, rest). type_size typ = None) rs"
  have ns: "stream \<noteq> 0xFF" using Cons.prems by (simp add: e is_sentinel_def)
  have ih: "\<And>s. stride_loop (rs @ sfx) s = (if U then None else Some (Max (insert s A)))"
    unfolding A_def U_def using Cons.IH Cons.prems by simp
  have fin: "finite A" unfolding A_def by simp
  show ?case
  proof (cases "type_size ty")
    case None
    then show ?thesis by (simp add: e ns)
  next
    case (Some sz)
    have u: "list_ex (\<lambda>(stream, offset, typ, rest). type_size typ = None) (e # rs) = U"
      unfolding U_def by (simp add: e Some)
    show ?thesis
    proof (cases "stream = 0")
      case False
      have "elem_end ` {x \<in> set (e # rs). fst x = 0} = A"
        unfolding A_def using False by (auto simp: e)
      moreover have "stride_loop ((e # rs) @ sfx) s = stride_loop (rs @ sfx) s"
        using False Some ns by (simp add: e)
      ultimately show ?thesis unfolding u by (simp only: ih)
    next
      case True
      have ee: "elem_end e = offset + sz" by (simp add: elem_end_def e Some)
      have "{x \<in> set (e # rs). fst x = 0} = insert e {x \<in> set rs. fst x = 0}"
        using True by (auto simp: e)
      then have "elem_end ` {x \<in> set (e # rs). fst x = 0} = insert (offset + sz) A"
        unfolding A_def by (simp only: image_insert ee)
      moreover have "stride_loop ((e # rs) @ sfx) s = stride_loop (rs @ sfx) (max s (offset + sz))"
        using True Some ns by (simp add: e)
      moreover have "Max (insert (max s (offset + sz)) A) = Max (insert s (insert (offset + sz) A))"
        using fin by (rule Max_insert_max)
      ultimately show ?thesis unfolding u by (simp only: ih)
    qed
  qed
qed

lemma take_Suc_takeWhile:
  "take (Suc (length (takeWhile P xs))) xs = takeWhile P xs @ take 1 (dropWhile P xs)"
  by (induction xs) simp_all

lemma parse_d3d_decl_520_eq:
  assumes "length blk = 520"
  shows "parse_d3d_decl_520 blk =
     Inr (if \<not> has_sentinel blk \<or> unknown_type blk \<or> decl_stride blk = 0 \<or> decl_stride blk > 1024
          then None else Some (decl_stride blk, parsed_elems blk))"
proof -
  define rs where "rs = records blk"
  define bf where "bf = takeWhile (\<lambda>e. \<not> is_sentinel e) rs"
  define sfx where "sfx = take 1 (dropWhile (\<lambda>e. \<not> is_sentinel e) rs)"
  have rd: "read_elems blk [0..<65] [] = Inr (bf @ sfx, list_ex is_sentinel rs)"
    using read_elems_ok [of "[0..<65]" blk "[]"] assms
    by (simp add: rs_def bf_def sfx_def records_def)
  have sfx: "sfx = [] \<or> is_sentinel (hd sfx)"
  proof (cases "dropWhile (\<lambda>e. \<not> is_sentinel e) rs")
    case Nil
    then show ?thesis by (simp add: sfx_def)
  next
    case (Cons t ts)
    then have "is_sentinel t" using hd_dropWhile [of "\<lambda>e. \<not> is_sentinel e" rs] by simp
    then show ?thesis by (simp add: sfx_def Cons)
  qed
  have bfn: "\<forall>e\<in>set bf. \<not> is_sentinel e"
    unfolding bf_def by (auto dest: set_takeWhileD)
  have sl: "stride_loop (bf @ sfx) 0 =
     (if unknown_type blk then None else Some (decl_stride blk))"
    using stride_loop_ok [OF bfn sfx, of 0]
    by (simp add: unknown_type_def decl_stride_def before_sentinel_def bf_def rs_def)
  have pe: "parsed_elems blk = bf @ sfx"
    by (simp add: parsed_elems_def before_sentinel_def bf_def sfx_def rs_def take_Suc_takeWhile)
  show ?thesis
    unfolding parse_d3d_decl_520_def using assms
    by (simp add: rd sl pe has_sentinel_def rs_def)
qed


lemma sentinel_at:
  assumes "k < 65" "\<forall>i<k. \<not> is_sentinel (record_at blk i)" "is_sentinel (record_at blk k)"
  shows "has_sentinel blk" and "before_sentinel blk = map (record_at blk) [0..<k]"
    and "parsed_elems blk = map (record_at blk) [0..<Suc k]"
proof -
  have u: "[0..<65] = [0..<k] @ k # [Suc k..<65]"
    using assms(1) by (metis le_add2 le_add_same_cancel2 less_imp_le_nat upt_add_eq_append upt_conv_Cons le_add_diff_inverse)
  have r: "records blk = map (record_at blk) [0..<k] @ record_at blk k # map (record_at blk) [Suc k..<65]"
    unfolding records_def u by simp
  show "has_sentinel blk"
    unfolding has_sentinel_def r using assms(3) by (simp add: list_ex_iff)
  have tw: "takeWhile (\<lambda>e. \<not> is_sentinel e) (map (record_at blk) [0..<k] @ record_at blk k # map (record_at blk) [Suc k..<65])
        = map (record_at blk) [0..<k]"
    using assms(2,3) by (subst takeWhile_append2) auto
  show b: "before_sentinel blk = map (record_at blk) [0..<k]"
    unfolding before_sentinel_def r by (rule tw)
  show "parsed_elems blk = map (record_at blk) [0..<Suc k]"
    unfolding parsed_elems_def b unfolding r by simp
qed

lemma decl_only_sentinel_facts:
  "length decl_only_sentinel = 520"
  "has_sentinel decl_only_sentinel"
  "before_sentinel decl_only_sentinel = []"
proof -
  have s: "is_sentinel (record_at decl_only_sentinel 0)"
    by (simp add: is_sentinel_def record_at_def u16v_def decl_only_sentinel_def)
  show "length decl_only_sentinel = 520" by (simp add: decl_only_sentinel_def)
  show "has_sentinel decl_only_sentinel"
    using sentinel_at(1) [of 0 decl_only_sentinel] s by simp
  show "before_sentinel decl_only_sentinel = []"
    using sentinel_at(2) [of 0 decl_only_sentinel] s by simp
qed

text \<open>
  C7, the counterexample: a 520-byte block whose first record is the sentinel has a sentinel,
  no element before it (so no element of unknown type) and the stride 0, which does not
  exceed 1024; yet \<open>parse_d3d_decl_520\<close> returns \<open>None\<close>, by its test \<open>stride <= 0\<close>.
\<close>

theorem parse_d3d_decl_520_counterexample:
  "length decl_only_sentinel = 520 \<and>
   has_sentinel decl_only_sentinel \<and>
   \<not> unknown_type decl_only_sentinel \<and>
   \<not> decl_stride decl_only_sentinel > 1024 \<and>
   parse_d3d_decl_520 decl_only_sentinel = Inr None"
proof -
  have "\<not> unknown_type decl_only_sentinel"
    by (simp add: unknown_type_def decl_only_sentinel_facts)
  moreover have "decl_stride decl_only_sentinel = 0"
    by (simp add: decl_stride_def decl_only_sentinel_facts)
  ultimately show ?thesis
    using parse_d3d_decl_520_eq [OF decl_only_sentinel_facts(1)] decl_only_sentinel_facts
    by simp
qed

text \<open>
  C7, amended: for a 520-byte block, \<open>parse_d3d_decl_520\<close> never fails, and it returns \<open>None\<close>
  if and only if none of the 65 records has the stream \<open>0xFF\<close>, or an element before the
  sentinel has a type without a size, or the stride (the maximum of offset plus type size
  over the stream-0 elements before the sentinel, 0 without any) exceeds 1024 or is 0. In
  every other case it returns that stride with the records up to and including the sentinel.
\<close>

theorem parse_d3d_decl_520_result:
  assumes "length blk = 520"
  shows "(parse_d3d_decl_520 blk = Inr None \<longleftrightarrow>
            \<not> has_sentinel blk \<or> unknown_type blk \<or> decl_stride blk > 1024 \<or> decl_stride blk = 0)
       \<and> (parse_d3d_decl_520 blk = Inr None \<or>
            parse_d3d_decl_520 blk = Inr (Some (decl_stride blk, parsed_elems blk)))"
  unfolding parse_d3d_decl_520_eq [OF assms] by auto

lemma decl_pos_nrm_uv_records:
  "record_at decl_pos_nrm_uv 0 = (0, 0, 2, 0, 0, 0)"
  "record_at decl_pos_nrm_uv 1 = (0, 12, 2, 0, 3, 0)"
  "record_at decl_pos_nrm_uv (Suc 0) = (0, 12, 2, 0, 3, 0)"
  "record_at decl_pos_nrm_uv 2 = (0, 24, 1, 0, 5, 0)"
  "record_at decl_pos_nrm_uv 3 = (255, 0, 17, 0, 0, 0)"
  by (simp_all add: record_at_def u16v_def u8v_def decl_pos_nrm_uv_def)

lemma decl_pos_nrm_uv_facts:
  "length decl_pos_nrm_uv = 520"
  "has_sentinel decl_pos_nrm_uv"
  "before_sentinel decl_pos_nrm_uv = [(0, 0, 2, 0, 0, 0), (0, 12, 2, 0, 3, 0), (0, 24, 1, 0, 5, 0)]"
  "parsed_elems decl_pos_nrm_uv =
     [(0, 0, 2, 0, 0, 0), (0, 12, 2, 0, 3, 0), (0, 24, 1, 0, 5, 0), (255, 0, 17, 0, 0, 0)]"
proof -
  have ns: "\<not> is_sentinel (record_at decl_pos_nrm_uv 0)"
    "\<not> is_sentinel (record_at decl_pos_nrm_uv (Suc 0))"
    "\<not> is_sentinel (record_at decl_pos_nrm_uv (Suc (Suc 0)))"
    by (simp_all add: is_sentinel_def record_at_def u16v_def decl_pos_nrm_uv_def)
  have n: "\<forall>i<3. \<not> is_sentinel (record_at decl_pos_nrm_uv i)"
    using ns by (auto simp: numeral_3_eq_3 less_Suc_eq)
  have s: "is_sentinel (record_at decl_pos_nrm_uv 3)"
    by (simp add: decl_pos_nrm_uv_records is_sentinel_def)
  have u: "[0..<3] = [0, 1, 2]" "[0..<Suc 3] = [0, 1, 2, 3]" "[0..<4] = [0, 1, 2, 3]"
    by (simp_all add: upt_rec)
  show "length decl_pos_nrm_uv = 520" by (simp add: decl_pos_nrm_uv_def)
  show "has_sentinel decl_pos_nrm_uv"
    using sentinel_at(1) [OF _ n s] by simp
  show "before_sentinel decl_pos_nrm_uv = [(0, 0, 2, 0, 0, 0), (0, 12, 2, 0, 3, 0), (0, 24, 1, 0, 5, 0)]"
    using sentinel_at(2) [OF _ n s] by (simp add: u decl_pos_nrm_uv_records)
  show "parsed_elems decl_pos_nrm_uv =
     [(0, 0, 2, 0, 0, 0), (0, 12, 2, 0, 3, 0), (0, 24, 1, 0, 5, 0), (255, 0, 17, 0, 0, 0)]"
    using sentinel_at(3) [OF _ n s] by (simp add: u decl_pos_nrm_uv_records)
qed

theorem parse_d3d_decl_520_result_witness:
  "length decl_pos_nrm_uv = 520 \<and>
   parse_d3d_decl_520 decl_pos_nrm_uv =
     Inr (Some (32, [(0, 0, 2, 0, 0, 0), (0, 12, 2, 0, 3, 0), (0, 24, 1, 0, 5, 0),
                     (255, 0, 17, 0, 0, 0)]))"
proof -
  define e0 :: elem where "e0 = (0, 0, 2, 0, 0, 0)"
  define e1 :: elem where "e1 = (0, 12, 2, 0, 3, 0)"
  define e2 :: elem where "e2 = (0, 24, 1, 0, 5, 0)"
  have b: "before_sentinel decl_pos_nrm_uv = [e0, e1, e2]"
    by (simp add: decl_pos_nrm_uv_facts e0_def e1_def e2_def)
  have ee: "elem_end e0 = 12" "elem_end e1 = 24" "elem_end e2 = 32"
    and st: "fst e0 = 0" "fst e1 = 0" "fst e2 = 0"
    and ty: "type_size (fst (snd (snd e0))) \<noteq> None" "type_size (fst (snd (snd e1))) \<noteq> None"
      "type_size (fst (snd (snd e2))) \<noteq> None"
    by (simp_all add: elem_end_def type_size_def e0_def e1_def e2_def)
  have u: "\<not> unknown_type decl_pos_nrm_uv"
    unfolding unknown_type_def b using ty by (simp add: split_def)
  have "{e \<in> set [e0, e1, e2]. fst e = 0} = {e0, e1, e2}"
    using st by auto
  then have d: "decl_stride decl_pos_nrm_uv = 32"
    unfolding decl_stride_def b by (simp add: ee)
  show ?thesis
    using parse_d3d_decl_520_result [OF decl_pos_nrm_uv_facts(1)] u d decl_pos_nrm_uv_facts
    by auto
qed


subsection \<open>The CompactBitmask vertex decoder\<close>

lemma unpack_from_drop:
  "0 < k \<Longrightarrow> unpack_from k (drop a vb) off = unpack_from k vb (a + off)"
  by (auto simp: unpack_from_def add.commute)

lemma unpack_kf_xyz_drop:
  "0 < k \<Longrightarrow> unpack_kf_xyz k (drop a vb) off = unpack_kf_xyz k vb (a + off)"
  by (simp add: unpack_kf_xyz_def unpack_from_drop)

lemma unpack_kf_uv_drop:
  "0 < k \<Longrightarrow> unpack_kf_uv k (drop a vb) off = unpack_kf_uv k vb (a + off)"
  by (simp add: unpack_kf_uv_def unpack_from_drop)

lemma unpack_H_drop: "unpack_H (drop a vb) off = unpack_H vb (a + off)"
  by (simp add: unpack_H_def unpack_from_drop)

lemma decode_uv_drop: "decode_uv fmt (drop a vb) off = decode_uv fmt vb (a + off)"
  by (simp add: decode_uv_def unpack_kf_uv_drop unpack_H_drop add.assoc)



lemma and_or_mask:
  fixes d :: "32 word"
  shows "(d AND NOT m OR b) AND k = (d AND (NOT m AND k)) OR (b AND k)"
  by (simp add: bit.conj_disj_distrib2 and.assoc)

lemma with_base_0002_bits:
  "with_base_0002 d AND 0x400E = 0x0002"
  "with_base_0002 d AND 0x10 = d AND 0x10"
  "with_base_0002 d AND 0x20 = d AND 0x20"
  "with_base_0002 d AND 0x40 = d AND 0x40"
  "with_base_0002 d AND 0x80 = d AND 0x80"
  unfolding with_base_0002_def and_or_mask by simp_all

lemma with_base_0002_high:
  "drop_bit 8 (with_base_0002 d) AND 0xF = drop_bit 8 d AND 0xF"
  "drop_bit 16 (with_base_0002 d) = drop_bit 16 d"
proof -
  have a: "with_base_0002 d AND 0xF00 = d AND 0xF00"
    "with_base_0002 d AND 0xFFFF0000 = d AND 0xFFFF0000"
    unfolding with_base_0002_def and_or_mask by simp_all
  have m: "(0xF::32 word) = mask 4" "(0xF00::32 word) = push_bit 8 (mask 4)"
    "(0xFFFF0000::32 word) = push_bit 16 (mask 16)"
    by (simp_all add: mask_eq_exp_minus_1 push_bit_eq_mult)
  have b: "drop_bit 8 x AND 0xF = drop_bit 8 (x AND 0xF00)" for x :: "32 word"
    unfolding m by (rule bit_word_eqI) (auto simp: bit_simps)
  have c: "drop_bit 16 x = drop_bit 16 (x AND 0xFFFF0000)" for x :: "32 word"
    unfolding m by (rule bit_word_eqI) (auto simp: bit_simps dest: bit_imp_le_length)
  show "drop_bit 8 (with_base_0002 d) AND 0xF = drop_bit 8 d AND 0xF"
    unfolding b a ..
  have "drop_bit 16 (with_base_0002 d) = drop_bit 16 (with_base_0002 d AND 0xFFFF0000)"
    by (rule c)
  also have "\<dots> = drop_bit 16 (d AND 0xFFFF0000)" by (simp only: a)
  also have "\<dots> = drop_bit 16 d" by (rule c [symmetric])
  finally show "drop_bit 16 (with_base_0002 d) = drop_bit 16 d" .
qed

lemma stride_with_base_0002:
  assumes "base_table (d AND 0x400E) = None"
  shows "vertex_stride_from_decl (with_base_0002 d) = vertex_stride_from_decl d + 12"
proof -
  have b: "base_table (0x0002::32 word) = Some 12" by (simp add: base_table_def)
  show ?thesis
    unfolding vertex_stride_from_decl_def Let_def with_base_0002_bits with_base_0002_high
      uv_loop_sum assms b
    by simp
qed


lemma decode_base_unknown:
  "base_table sel = None \<Longrightarrow>
   decode_base sel vb off = ebind (unpack_kf_xyz 3 vb off) (\<lambda>p. Inr (p, off + 12))"
  by (auto simp: base_table_def decode_base_def split: if_splits)

lemma decode_base_0002:
  "decode_base 0x0002 vb off = ebind (unpack_kf_xyz 3 vb off) (\<lambda>p. Inr (p, off + 12))"
  by (simp add: decode_base_def)

lemma decode_normal_drop:
  "decode_normal d vb (a + off) sw =
     ebind (decode_normal d (drop a vb) off sw) (\<lambda>(n, off'). Inr (n, a + off'))"
  by (cases "unpack_kf_xyz 3 vb (a + off)")
     (simp_all add: decode_normal_def unpack_kf_xyz_drop split_def Let_def add.assoc)

lemma skip_packed_add: "skip_packed d (a + off) = a + skip_packed d off"
  by (simp add: skip_packed_def Let_def)

lemma decode_first_uv_drop:
  "decode_first_uv fsub d (drop a vb) off fl = decode_first_uv fsub d vb (a + off) fl"
  by (simp add: decode_first_uv_def Let_def decode_uv_drop)

lemma with_base_0002_blocks:
  "decode_normal (with_base_0002 d) = decode_normal d"
  "skip_packed (with_base_0002 d) = skip_packed d"
  "decode_first_uv fsub (with_base_0002 d) = decode_first_uv fsub d"
  by (intro ext, simp add: decode_normal_def skip_packed_def decode_first_uv_def
        with_base_0002_bits with_base_0002_high)+

lemma decode_vertex_unknown_base_eq:
  assumes "base_table (d AND 0x400E) = None"
  shows "decode_vertex fsub d vb i fl sw =
         decode_vertex fsub (with_base_0002 d) (drop (i * vertex_stride_from_decl d) vb) 0 fl sw"
proof -
  define a where "a = i * vertex_stride_from_decl d"
  have l: "decode_vertex fsub d vb i fl sw =
      ebind (unpack_kf_xyz 3 vb a) (\<lambda>(x, y, z).
        ebind (decode_normal d vb (a + 12) sw) (\<lambda>(nrm, off).
          ebind (decode_first_uv fsub d vb (skip_packed d off) fl) (\<lambda>uv.
            Inr (if sw then (x, z, y) else (x, y, z), nrm, uv))))"
    unfolding decode_vertex_def Let_def decode_base_unknown [OF assms] a_def [symmetric]
    by (cases "unpack_kf_xyz 3 vb a") (auto simp: split_def)
  have r: "decode_vertex fsub (with_base_0002 d) (drop a vb) 0 fl sw =
      ebind (unpack_kf_xyz 3 vb a) (\<lambda>(x, y, z).
        ebind (decode_normal d (drop a vb) 12 sw) (\<lambda>(nrm, off).
          ebind (decode_first_uv fsub d (drop a vb) (skip_packed d off) fl) (\<lambda>uv.
            Inr (if sw then (x, z, y) else (x, y, z), nrm, uv))))"
    unfolding decode_vertex_def Let_def with_base_0002_bits decode_base_0002 with_base_0002_blocks
    by (cases "unpack_kf_xyz 3 vb a") (auto simp: split_def unpack_kf_xyz_drop)
  show ?thesis
    unfolding a_def [symmetric] l r
    by (cases "unpack_kf_xyz 3 vb a"; cases "decode_normal d (drop a vb) 12 sw")
       (auto simp: decode_normal_drop skip_packed_add decode_first_uv_drop split_def)
qed


lemma unpack_kf_xyz_ok:
  "off + 4 * k \<le> length vb \<Longrightarrow> 3 \<le> k \<Longrightarrow>
   unpack_kf_xyz k vb off = Inr (f32v vb off, f32v vb (off + 4), f32v vb (off + 8))"
  by (simp add: unpack_kf_xyz_def unpack_from_ok f32v_def drop_take min_def add.commute)

lemma unpack_kf_xyz_Inr:
  "unpack_kf_xyz k vb off = Inr p \<Longrightarrow> 3 \<le> k \<Longrightarrow>
   p = (f32v vb off, f32v vb (off + 4), f32v vb (off + 8))"
  by (cases "off + 4 * k \<le> length vb")
     (simp_all add: unpack_kf_xyz_ok, simp add: unpack_kf_xyz_def unpack_from_def)

lemma unpack_kf_uv_ok:
  "off + 4 * k \<le> length vb \<Longrightarrow> 2 \<le> k \<Longrightarrow> \<exists>uv. unpack_kf_uv k vb off = Inr uv"
  by (simp add: unpack_kf_uv_def unpack_from_ok)

lemma decode_normal_ok:
  assumes "off + (if bit d 4 then 12 else 0) \<le> length vb"
  shows "\<exists>n. decode_normal d vb off sw = Inr (n, off + (if bit d 4 then 12 else 0))"
proof (cases "bit d 4")
  case True
  then have "unpack_kf_xyz 3 vb off = Inr (f32v vb off, f32v vb (off + 4), f32v vb (off + 8))"
    using assms by (intro unpack_kf_xyz_ok) simp_all
  then show ?thesis using True by (simp add: decode_normal_def test_bit4 Let_def)
next
  case False
  then show ?thesis by (simp add: decode_normal_def test_bit4)
qed

lemma skip_packed_eq:
  "skip_packed d off = off + (if bit d 5 then 4 else 0) + (if bit d 6 then 4 else 0)
                           + (if bit d 7 then 4 else 0)"
  by (simp add: skip_packed_def Let_def test_bit5 test_bit6 test_bit7)

lemma decode_uv_ok:
  assumes "off + selector_cost (unat (fmt AND 3)) \<le> length vb" "fmt AND 3 = fmt"
  shows "\<exists>uv. decode_uv fmt vb off = Inr uv"
proof -
  consider "fmt = 0" | "fmt = 1" | "fmt = 2" | "fmt = 3"
    using and3_cases [of fmt] assms(2) by auto
  then show ?thesis
  proof cases
    case 1
    then show ?thesis using assms unpack_kf_uv_ok [of off 2 vb]
      by (simp add: decode_uv_def selector_cost_def)
  next
    case 2
    then show ?thesis using assms unpack_kf_uv_ok [of off 3 vb]
      by (simp add: decode_uv_def selector_cost_def)
  next
    case 3
    then show ?thesis using assms unpack_kf_uv_ok [of off 4 vb]
      by (simp add: decode_uv_def selector_cost_def)
  next
    case 4
    then show ?thesis using assms
      by (simp add: decode_uv_def selector_cost_def unpack_H_ok)
  qed
qed


lemma decode_first_uv_ok:
  assumes "off + (if drop_bit 8 d AND 0xF = 0 then 0
                  else if drop_bit 16 d AND 0xFFFF = 0 then 8
                  else selector_cost (unat ((drop_bit 16 d AND 0xFFFF) AND 3))) \<le> length vb"
  shows "\<exists>uv. decode_first_uv fsub d vb off fl = Inr uv"
proof (cases "drop_bit 8 d AND 0xF = 0")
  case True
  then show ?thesis by (simp add: decode_first_uv_def)
next
  case False
  define fmt where "fmt = (if drop_bit 16 d AND 0xFFFF \<noteq> 0 then (drop_bit 16 d AND 0xFFFF) AND 3 else 0)"
  have "fmt AND 3 = fmt" by (simp add: fmt_def and.assoc)
  moreover have "off + selector_cost (unat (fmt AND 3)) \<le> length vb"
    using assms False by (auto simp: fmt_def and.assoc selector_cost_def)
  ultimately obtain uv where "decode_uv fmt vb off = Inr uv"
    using decode_uv_ok [of off fmt vb] by blast
  then show ?thesis
    using False by (simp add: decode_first_uv_def Let_def fmt_def [symmetric] split_def)
qed

lemma first_slot_le_sum:
  fixes f :: "nat \<Rightarrow> nat"
  shows "0 < n \<Longrightarrow> f 0 \<le> (\<Sum>k<n. f k)"
  by (rule member_le_sum) simp_all

lemma vertex_fields_le_stride:
  "(if bit d 4 then 12 else 0) + (if bit d 5 then 4 else 0) + (if bit d 6 then 4 else 0)
     + (if bit d 7 then 4 else 0)
     + (if drop_bit 8 d AND 0xF = 0 then 0
        else if drop_bit 16 d AND 0xFFFF = 0 then 8
        else selector_cost (unat ((drop_bit 16 d AND 0xFFFF) AND 3)))
   \<le> vertex_stride_from_decl d"
proof -
  define n where "n = unat (drop_bit 8 d AND 0xF)"
  define sel where "sel = drop_bit 16 d AND 0xFFFF"
  define opt :: nat where "opt = (if bit d 4 then 12 else 0) + (if bit d 5 then 4 else 0)
     + (if bit d 6 then 4 else 0) + (if bit d 7 then 4 else 0)"
  have n0: "(drop_bit 8 d AND 0xF = 0) = (n = 0)"
    by (simp add: n_def unat_eq_0)
  have s: "vertex_stride_from_decl d =
      (case base_table (d AND 0x400E) of Some b \<Rightarrow> b | None \<Rightarrow> 0) + opt +
      (if sel \<noteq> 0 then (\<Sum>k<n. selector_cost (unat (drop_bit (2 * k) sel AND 3))) else 8 * n)"
    unfolding vertex_stride_from_decl_def Let_def uv_loop_sum test_bit4 test_bit5 test_bit6
      test_bit7 n_def [symmetric] sel_def [symmetric] opt_def
    by simp
  have "(if n = 0 then 0 else if sel = 0 then 8 else selector_cost (unat (sel AND 3)))
      \<le> (if sel \<noteq> 0 then (\<Sum>k<n. selector_cost (unat (drop_bit (2 * k) sel AND 3))) else 8 * n)"
    using first_slot_le_sum [of n "\<lambda>k. selector_cost (unat (drop_bit (2 * k) sel AND 3))"]
    by auto
  then show ?thesis
    unfolding s n0 sel_def [symmetric] opt_def [symmetric] by simp
qed


lemma decode_vertex_unknown_base_unfold:
  assumes "base_table (d AND 0x400E) = None"
  shows "decode_vertex fsub d vb i fl sw =
      ebind (unpack_kf_xyz 3 vb (i * vertex_stride_from_decl d)) (\<lambda>(x, y, z).
        ebind (decode_normal d vb (i * vertex_stride_from_decl d + 12) sw) (\<lambda>(nrm, off).
          ebind (decode_first_uv fsub d vb (skip_packed d off) fl) (\<lambda>uv.
            Inr (if sw then (x, z, y) else (x, y, z), nrm, uv))))"
  unfolding decode_vertex_def Let_def decode_base_unknown [OF assms]
  by (cases "unpack_kf_xyz 3 vb (i * vertex_stride_from_decl d)") (auto simp: split_def)

lemma decode_vertex_unknown_base_pos:
  fixes d :: "32 word" and i :: nat
  assumes "base_table (d AND 0x400E) = None"
    and "decode_vertex fsub d vb i fl sw = Inr (pos, nrm, uv)"
  defines "a \<equiv> i * vertex_stride_from_decl d"
  shows "pos = (if sw then (f32v vb a, f32v vb (a + 8), f32v vb (a + 4))
                else (f32v vb a, f32v vb (a + 4), f32v vb (a + 8)))"
proof (cases "unpack_kf_xyz 3 vb a")
  case (Inl e)
  then show ?thesis
    using assms(2) unfolding decode_vertex_unknown_base_unfold [OF assms(1)] a_def by simp
next
  case (Inr p)
  then have p: "p = (f32v vb a, f32v vb (a + 4), f32v vb (a + 8))"
    by (intro unpack_kf_xyz_Inr [of 3 vb a]) simp_all
  show ?thesis
    using assms(2) Inr
    unfolding decode_vertex_unknown_base_unfold [OF assms(1)] a_def [symmetric] p
    by (auto simp: ebind_def split_def split: sum.splits if_splits)
qed

lemma decode_vertex_unknown_base_ok:
  fixes d :: "32 word" and i :: nat
  assumes "base_table (d AND 0x400E) = None"
  defines "a \<equiv> i * vertex_stride_from_decl d"
  assumes "a + 12 + vertex_stride_from_decl d \<le> length vb"
  shows "\<exists>nrm uv. decode_vertex fsub d vb i fl sw =
           Inr (if sw then (f32v vb a, f32v vb (a + 8), f32v vb (a + 4))
                else (f32v vb a, f32v vb (a + 4), f32v vb (a + 8)), nrm, uv)"
proof -
  define c where "c = (if drop_bit 8 d AND 0xF = 0 then 0
        else if drop_bit 16 d AND 0xFFFF = 0 then 8
        else selector_cost (unat ((drop_bit 16 d AND 0xFFFF) AND 3)))"
  define n where "n = a + 12 + (if bit d 4 then 12 else 0)"
  have le: "(if bit d 4 then 12 else 0) + (if bit d 5 then 4 else 0) + (if bit d 6 then 4 else 0)
     + (if bit d 7 then 4 else 0) + c \<le> vertex_stride_from_decl d"
    unfolding c_def by (rule vertex_fields_le_stride)
  have x: "unpack_kf_xyz 3 vb a = Inr (f32v vb a, f32v vb (a + 4), f32v vb (a + 8))"
    using assms(3) by (intro unpack_kf_xyz_ok) simp_all
  obtain nrm where nr: "decode_normal d vb (a + 12) sw = Inr (nrm, n)"
    unfolding n_def using decode_normal_ok [of "a + 12" d vb sw] assms(3) le by auto
  have "skip_packed d n + c \<le> length vb"
    unfolding skip_packed_eq n_def using assms(3) le by auto
  then obtain uv where uv: "decode_first_uv fsub d vb (skip_packed d n) fl = Inr uv"
    unfolding c_def using decode_first_uv_ok [of "skip_packed d n" d vb fsub fl] by blast
  show ?thesis
    unfolding decode_vertex_unknown_base_unfold [OF assms(1)] a_def [symmetric]
    by (simp add: x nr uv)
qed

text \<open>
  C9: for a declaration whose base selector \<open>d AND 0x400E\<close> is none of the seven table
  values, \<open>decode_vertex\<close> does not reject the base field. It gives the same result as for the
  declaration with the recognised three-float base \<open>0x0002\<close> decoding the vertex that starts at
  the offset \<open>i * stride\<close>; a position that it returns is the three floats of the 12 bytes at
  that offset (with y and z exchanged under \<open>swap_yz\<close>, as for every declaration); and it does
  return one whenever the buffer holds those 12 bytes and the \<open>stride\<close> bytes of the other
  fields after them.
\<close>

theorem decode_vertex_unknown_base:
  fixes d :: "32 word" and i :: nat and vb :: "byte list" and swap_yz :: bool
  assumes "base_table (d AND 0x400E) = None"
  defines "a \<equiv> i * vertex_stride_from_decl d"
  defines "p \<equiv> (if swap_yz then (f32v vb a, f32v vb (a + 8), f32v vb (a + 4))
                 else (f32v vb a, f32v vb (a + 4), f32v vb (a + 8)))"
  shows "decode_vertex fsub d vb i flip_v swap_yz =
           decode_vertex fsub (with_base_0002 d) (drop a vb) 0 flip_v swap_yz
       \<and> (\<forall>pos nrm uv. decode_vertex fsub d vb i flip_v swap_yz = Inr (pos, nrm, uv) \<longrightarrow> pos = p)
       \<and> (a + 12 + vertex_stride_from_decl d \<le> length vb \<longrightarrow>
            (\<exists>nrm uv. decode_vertex fsub d vb i flip_v swap_yz = Inr (p, nrm, uv)))"
  unfolding a_def p_def
  using decode_vertex_unknown_base_eq [OF assms(1)] decode_vertex_unknown_base_pos [OF assms(1)]
    decode_vertex_unknown_base_ok [OF assms(1)]
  by blast

lemma decl_unknown_base_facts:
  "base_table (decl_unknown_base AND 0x400E) = None"
  "vertex_stride_from_decl decl_unknown_base = 16"
  "length vb_unknown_base = 56"
  "f32v vb_unknown_base 16 = Finite False 1"
  "f32v vb_unknown_base 20 = Finite False 2"
  "f32v vb_unknown_base 24 = Finite False 3"
  by (simp_all add: decl_unknown_base_def base_table_def vertex_stride_from_decl_def
      vb_unknown_base_def f32v_def f32_le_def f32_to_float_def)

theorem decode_vertex_unknown_base_witness:
  "base_table (decl_unknown_base AND 0x400E) = None \<and>
   (\<exists>nrm uv. decode_vertex fsub_exact decl_unknown_base vb_unknown_base 1 True False =
      Inr ((Finite False 1, Finite False 2, Finite False 3), nrm, uv))"
proof -
  note t = decode_vertex_unknown_base [OF decl_unknown_base_facts(1),
      where i = 1 and vb = vb_unknown_base and fsub = fsub_exact and flip_v = True
        and swap_yz = False]
  from t have "1 * vertex_stride_from_decl decl_unknown_base + 12
        + vertex_stride_from_decl decl_unknown_base \<le> length vb_unknown_base \<longrightarrow>
      (\<exists>nrm uv. decode_vertex fsub_exact decl_unknown_base vb_unknown_base 1 True False =
         Inr (if False then (f32v vb_unknown_base (1 * vertex_stride_from_decl decl_unknown_base),
                  f32v vb_unknown_base (1 * vertex_stride_from_decl decl_unknown_base + 8),
                  f32v vb_unknown_base (1 * vertex_stride_from_decl decl_unknown_base + 4))
              else (f32v vb_unknown_base (1 * vertex_stride_from_decl decl_unknown_base),
                  f32v vb_unknown_base (1 * vertex_stride_from_decl decl_unknown_base + 4),
                  f32v vb_unknown_base (1 * vertex_stride_from_decl decl_unknown_base + 8)),
              nrm, uv))"
    by (rule conjunct2 [THEN conjunct2])
  then show ?thesis
    by (simp add: decl_unknown_base_facts)
qed


subsection \<open>The scene-tree walker\<close>

lemma find_byte_name:
  assumes "0 \<notin> set nm"
  shows "find_byte 0 (pre @ nm @ 0 # rest) (length pre) = Some (length pre + length nm)"
proof -
  have "takeWhile (\<lambda>x. x \<noteq> 0) (nm @ 0 # rest) = nm"
    using assms by (subst takeWhile_append2) auto
  then show ?thesis by (simp add: find_byte_def Let_def)
qed

lemma reader_cstr_name:
  "0 \<notin> set nm \<Longrightarrow>
   reader_cstr (pre @ nm @ 0 # rest) (length pre) = Inr (length pre + length nm + 1)"
  by (simp add: reader_cstr_def find_byte_name)

lemma reader_u32_at:
  assumes "length fb = 4"
  shows "reader_u32 (pre @ fb @ rest) (length pre) = Inr (le_nat fb, length pre + 4)"
  using assms by (simp add: reader_u32_def unpack_I_def unpack_from_def)

lemma parse_node_ok:
  "wf_node t \<Longrightarrow>
   parse_node frames (pre @ encode_node t @ suf) (length pre) =
     (if depth_node t \<le> frames then Inr (length pre + length (encode_node t))
      else Inl RecursionError)"
  and parse_link_ok:
  "wf_link l \<Longrightarrow>
   parse_link frames (pre @ encode_link l @ suf) (length pre) =
     (if depth_link l \<le> frames then Inr (length pre + length (encode_link l))
      else Inl RecursionError)"
proof (induction t and l arbitrary: frames pre suf and frames pre suf)
  case (ScnNode nm blob l1 l2)
  show ?case
  proof (cases frames)
    case 0
    then show ?thesis by simp
  next
    case (Suc f)
    define data where "data = pre @ encode_node (ScnNode nm blob l1 l2) @ suf"
    define p1 where "p1 = pre @ nm @ [0] @ blob"
    define p2 where "p2 = p1 @ encode_link l1"
    have wf: "0 \<notin> set nm" "length blob = 64" "wf_link l1" "wf_link l2"
      using ScnNode.prems by simp_all
    have d1: "data = pre @ nm @ 0 # (blob @ encode_link l1 @ encode_link l2 @ suf)"
      and d2: "data = p1 @ encode_link l1 @ (encode_link l2 @ suf)"
      and d3: "data = p2 @ encode_link l2 @ suf"
      by (simp_all add: data_def p1_def p2_def)
    have c: "reader_cstr data (length pre) = Inr (Suc (length pre + length nm))"
      unfolding d1 using reader_cstr_name [OF wf(1)] by simp
    have s: "reader_skip data (Suc (length pre + length nm)) 0x40 = Inr (length p1)"
      by (simp add: reader_skip_def reader_seek_def data_def p1_def wf(2))
    have l1: "parse_link f data (length p1) =
        (if depth_link l1 \<le> f then Inr (length p2) else Inl RecursionError)"
      unfolding d2 using ScnNode.IH(1) [OF wf(3), of f p1 "encode_link l2 @ suf"]
      by (simp add: p2_def)
    have l2: "parse_link f data (length p2) =
        (if depth_link l2 \<le> f then Inr (length p2 + length (encode_link l2)) else Inl RecursionError)"
      unfolding d3 using ScnNode.IH(2) [OF wf(4), of f p2 suf] by simp
    have len: "length p2 + length (encode_link l2) = length pre + length (encode_node (ScnNode nm blob l1 l2))"
      by (simp add: p2_def p1_def)
    have "parse_node (Suc f) data (length pre) =
        (case parse_link f data (length p1) of Inl e \<Rightarrow> Inl e | Inr ofs \<Rightarrow> parse_link f data ofs)"
      by (simp add: c s del: parse_link.simps)
    then show ?thesis
      unfolding data_def [symmetric] Suc
      by (simp add: l1 l2 len del: parse_link.simps)
  qed
next
  case (NoChild fb)
  then have "reader_u32 (pre @ fb @ suf) (length pre) = Inr (le_nat fb, length pre + 4)"
    by (intro reader_u32_at) simp
  then show ?case using NoChild by simp
next
  case (Child n)
  define p where "p = pre @ [1, 0, 0, 0]"
  define data where "data = pre @ encode_link (Child n) @ suf"
  have d: "data = pre @ [1, 0, 0, 0] @ (encode_node n @ suf)" "data = p @ encode_node n @ suf"
    by (simp_all add: data_def p_def)
  have lp: "length pre + 4 = length p" by (simp add: p_def)
  have r: "reader_u32 data (length pre) = Inr (1, length p)"
    unfolding d(1) lp [symmetric] using reader_u32_at [of "[1, 0, 0, 0]" pre "encode_node n @ suf"]
    by simp
  have n: "parse_node frames data (length p) =
      (if depth_node n \<le> frames then Inr (length p + length (encode_node n))
       else Inl RecursionError)"
    unfolding d(2) using Child.IH [of frames p suf] Child.prems by simp
  have "parse_link frames data (length pre) = parse_node frames data (length p)"
    by (simp add: r)
  also note n
  finally show ?case
    unfolding data_def by (simp add: p_def)
qed


lemma chain_facts:
  "wf_node (chain n)" "depth_node (chain n) = Suc n" "length (encode_node (chain n)) = 73 * Suc n"
  by (induction n) simp_all

text \<open>
  C8, the counterexample: the walker has no bound of its own. Where the interpreter allows
  100002 nested calls, the well-formed chain of 100002 nodes (deeper than 100000) is not
  rejected: the cursor after its root is returned. Where it allows 1000, the well-formed
  chain of 1001 nodes (within 100000) is not parsed: \<open>RecursionError\<close>.
\<close>

theorem parse_scn_tree_depth_counterexample:
  "wf_node (chain 100001) \<and> depth_node (chain 100001) = 100002 \<and>
   parse_scn_tree 100002 (encode_node (chain 100001)) 0 = Inr 7300146 \<and>
   wf_node (chain 1000) \<and> depth_node (chain 1000) = 1001 \<and>
   parse_scn_tree 1000 (encode_node (chain 1000)) 0 = Inl RecursionError"
proof -
  have a: "parse_scn_tree 100002 (encode_node (chain 100001)) 0 = Inr 7300146"
    unfolding parse_scn_tree_def
    using parse_node_ok [OF chain_facts(1), of 100002 "[]" 100001 "[]"]
    by (simp add: chain_facts)
  have b: "parse_scn_tree 1000 (encode_node (chain 1000)) 0 = Inl RecursionError"
    unfolding parse_scn_tree_def
    using parse_node_ok [OF chain_facts(1), of 1000 "[]" 1000 "[]"]
    by (simp add: chain_facts)
  show ?thesis using a b by (simp add: chain_facts)
qed

text \<open>
  C8, amended: \<open>parse_scn_tree\<close> has no depth bound of its own; the recursion is limited only
  by the interpreter. For every well-formed tree, wherever its bytes start in the data: if its
  nesting depth is within the number of nested calls that the interpreter allows, the result
  is the cursor position immediately after the root node; if it is deeper, the result is
  \<open>RecursionError\<close>.
\<close>

theorem parse_scn_tree_well_formed:
  assumes "wf_node t"
  shows "(depth_node t \<le> frames \<longrightarrow>
            parse_scn_tree frames (pre @ encode_node t @ suf) (length pre) =
              Inr (length pre + length (encode_node t)))
       \<and> (frames < depth_node t \<longrightarrow>
            parse_scn_tree frames (pre @ encode_node t @ suf) (length pre) = Inl RecursionError)"
  unfolding parse_scn_tree_def using parse_node_ok [OF assms, of frames pre suf] by simp

theorem parse_scn_tree_well_formed_witness:
  "wf_node (chain 1) \<and>
   parse_scn_tree 5 ([83, 67, 78, 48] @ encode_node (chain 1) @ [7]) 4 = Inr 150 \<and>
   parse_scn_tree 1 ([83, 67, 78, 48] @ encode_node (chain 1) @ [7]) 4 = Inl RecursionError"
proof -
  have w: "wf_node (chain 1)" by (rule chain_facts)
  have d: "depth_node (chain 1) = 2" "length (encode_node (chain 1)) = 146"
    by (simp_all add: chain_facts)
  have l: "length [83, 67, 78, 48 :: byte] = 4" by simp
  have "parse_scn_tree 5 ([83, 67, 78, 48] @ encode_node (chain 1) @ [7]) 4 = Inr 150"
    using parse_scn_tree_well_formed [OF w, of 5 "[83, 67, 78, 48]" "[7]"]
    unfolding l d by simp
  moreover have "parse_scn_tree 1 ([83, 67, 78, 48] @ encode_node (chain 1) @ [7]) 4 = Inl RecursionError"
    using parse_scn_tree_well_formed [OF w, of 1 "[83, 67, 78, 48]" "[7]"]
    unfolding l d by simp
  ultimately show ?thesis using w by blast
qed


subsection \<open>Subset table recovery\<close>

lemma unpack_4I_ok:
  "a + 16 \<le> length p \<Longrightarrow>
   unpack_4I p a = Inr (u32v p a, u32v p (a + 4), u32v p (a + 8), u32v p (a + 12))"
  by (simp add: unpack_4I_def unpack_from_ok u32v_def drop_take min_def add.commute)

lemma unpack_5I_ok:
  "a + 20 \<le> length p \<Longrightarrow>
   unpack_5I p a = Inr (u32v p a, u32v p (a + 4), u32v p (a + 8), u32v p (a + 12), u32v p (a + 16))"
  by (simp add: unpack_5I_def unpack_from_ok u32v_def drop_take min_def add.commute)

lemma read_entry_ok:
  assumes "es = 20 \<or> es = 16" "off + 4 + i * es + es \<le> length p"
  shows "read_entry p off es vcount i =
     Inr (if es = 20 \<and> entry_vertex_count p (off, es) i \<noteq> vcount then None
          else Some (entry_fields p (off, es) i))"
proof (cases "es = 20")
  case True
  then have "unpack_5I p (off + 4 + i * 20) =
      Inr (u32v p (off + 4 + i * 20), u32v p (off + 4 + i * 20 + 4), u32v p (off + 4 + i * 20 + 8),
           u32v p (off + 4 + i * 20 + 12), u32v p (off + 4 + i * 20 + 16))"
    using assms(2) by (intro unpack_5I_ok) simp
  then show ?thesis
    using True by (simp add: read_entry_def entry_vertex_count_def entry_fields_def Let_def)
next
  case False
  then have es: "es = 16" using assms(1) by simp
  then have "unpack_4I p (off + 4 + i * 16) =
      Inr (u32v p (off + 4 + i * 16), u32v p (off + 4 + i * 16 + 4), u32v p (off + 4 + i * 16 + 8),
           u32v p (off + 4 + i * 16 + 12))"
    using assms(2) by (intro unpack_4I_ok) simp
  then show ?thesis
    using es by (simp add: read_entry_def entry_fields_def Let_def)
qed

lemma entry_valid_iff:
  "entry_valid p vcount fc (off, es) i =
     ((es = 20 \<longrightarrow> entry_vertex_count p (off, es) i = vcount)
      \<and> entry_checks vcount fc (entry_fields p (off, es) i))"
  by (cases "entry_fields p (off, es) i")
     (auto simp: entry_valid_def entry_checks_def split: option.splits)


lemma entries_loop_valid:
  assumes "es = 20 \<or> es = 16"
  shows "\<forall>i\<in>set is. off + 4 + i * es + es \<le> length p \<Longrightarrow>
     list_all (entry_valid p vcount fc (off, es)) is \<Longrightarrow>
     \<exists>M' S'. entries_loop p off es vcount fc is (E, M, S) =
         Inr (True, E @ map (\<lambda>i. entry_dict (entry_fields p (off, es) i)) is, M', S')
       \<and> M \<le> M' \<and> S \<le> S' \<and> (is \<noteq> [] \<longrightarrow> 0 < M' \<and> 0 < S')"
proof (induction "is" arbitrary: E M S)
  case Nil
  then show ?case by simp
next
  case (Cons i "is")
  obtain m st tc bv where f: "entry_fields p (off, es) i = (m, st, tc, bv)"
    by (cases "entry_fields p (off, es) i") auto
  have v: "entry_valid p vcount fc (off, es) i" using Cons.prems(2) by simp
  then have c: "entry_checks vcount fc (m, st, tc, bv)"
    and vc: "es = 20 \<longrightarrow> entry_vertex_count p (off, es) i = vcount"
    unfolding entry_valid_iff f by simp_all
  have tc: "0 < tc" using v unfolding entry_valid_def f by simp
  have r: "read_entry p off es vcount i = Inr (Some (m, st, tc, bv))"
    using read_entry_ok [OF assms, of off i p vcount] Cons.prems(1) vc f by auto
  obtain M' S' where l: "entries_loop p off es vcount fc is
        (E @ [entry_dict (m, st, tc, bv)], max M (st + tc), S + tc) =
      Inr (True, (E @ [entry_dict (m, st, tc, bv)]) @ map (\<lambda>i. entry_dict (entry_fields p (off, es) i)) is, M', S')"
    and b: "max M (st + tc) \<le> M'" "S + tc \<le> S'"
    using Cons.IH [of "E @ [entry_dict (m, st, tc, bv)]" "max M (st + tc)" "S + tc"] Cons.prems
    by auto
  have "entries_loop p off es vcount fc (i # is) (E, M, S) =
      Inr (True, E @ map (\<lambda>i. entry_dict (entry_fields p (off, es) i)) (i # is), M', S')"
    using r c l by (simp add: f)
  moreover have "M \<le> M'" "S \<le> S'" "0 < M'" "0 < S'" using b tc by simp_all
  ultimately show ?case by blast
qed

lemma entries_loop_invalid:
  assumes "es = 20 \<or> es = 16"
  shows "\<forall>i\<in>set is. off + 4 + i * es + es \<le> length p \<Longrightarrow>
     \<not> list_all (entry_valid p vcount fc (off, es)) is \<Longrightarrow>
     \<exists>E' M' S'. entries_loop p off es vcount fc is (E, M, S) = Inr (False, E', M', S')"
proof (induction "is" arbitrary: E M S)
  case Nil
  then show ?case by simp
next
  case (Cons i "is")
  obtain m st tc bv where f: "entry_fields p (off, es) i = (m, st, tc, bv)"
    by (cases "entry_fields p (off, es) i") auto
  have r: "read_entry p off es vcount i =
     Inr (if es = 20 \<and> entry_vertex_count p (off, es) i \<noteq> vcount then None
          else Some (m, st, tc, bv))"
    using read_entry_ok [OF assms, of off i p vcount] Cons.prems(1) f by auto
  show ?case
  proof (cases "entry_valid p vcount fc (off, es) i")
    case True
    then have c: "entry_checks vcount fc (m, st, tc, bv)"
      and vc: "es = 20 \<longrightarrow> entry_vertex_count p (off, es) i = vcount"
      unfolding entry_valid_iff f by simp_all
    have "\<not> list_all (entry_valid p vcount fc (off, es)) is"
      using Cons.prems(2) True by simp
    then obtain E' M' S' where "entries_loop p off es vcount fc is
        (E @ [entry_dict (m, st, tc, bv)], max M (st + tc), S + tc) = Inr (False, E', M', S')"
      using Cons.IH [of "E @ [entry_dict (m, st, tc, bv)]" "max M (st + tc)" "S + tc"] Cons.prems(1)
      by auto
    then show ?thesis using r c vc by auto
  next
    case False
    then show ?thesis
      unfolding entry_valid_iff f using r by auto
  qed
qed


lemma table_entries_nonempty:
  "1 \<le> table_count p c \<Longrightarrow> table_entries p c \<noteq> []"
  by (auto simp: table_entries_def)

lemma hd_table_entries:
  "1 \<le> table_count p c \<Longrightarrow> hd (table_entries p c) = entry_dict (entry_fields p c 0)"
  by (simp add: table_entries_def hd_map upt_conv_Cons)

lemma marked_Some:
  assumes "1 \<le> table_count p h"
  shows "marked p (Some h) \<noteq> []"
    and "map_of (hd (marked p (Some h))) ''_end_off'' = Some (table_end p h)"
proof -
  obtain m st tc bv where f: "entry_fields p h 0 = (m, st, tc, bv)"
    by (cases "entry_fields p h 0") auto
  show "marked p (Some h) \<noteq> []" by (simp add: marked_def)
  show "map_of (hd (marked p (Some h))) ''_end_off'' = Some (table_end p h)"
    by (simp add: marked_def hd_table_entries [OF assms] f entry_dict_def)
qed

lemma try_table_ok:
  assumes es: "es = 20 \<or> es = 16"
    and cnt: "table_count p (off, es) = n" "1 \<le> n" "n \<le> 256"
    and len: "decl_off \<le> int (length p)"
    and inv: "\<And>h. held = Some h \<Longrightarrow> 1 \<le> table_count p h"
  shows "try_table p decl_off vcount fc off n es (marked p held) =
         Inr (marked p (closer_step p decl_off vcount fc (off, es) held))"
proof -
  define c where "c = (off, es)"
  have te: "table_end p c = off + (4 + n * es)"
    by (simp add: table_end_def c_def cnt)
  show ?thesis
  proof (cases "int (table_end p c) > decl_off")
    case True
    then have "\<not> table_valid p decl_off vcount fc c" by (simp add: table_valid_def)
    then show ?thesis
      using True unfolding try_table_def Let_def te c_def [symmetric]
      by (simp add: closer_step_def)
  next
    case False
    have rng: "\<forall>i\<in>set [0..<n]. off + 4 + i * es + es \<le> length p"
    proof
      fix i assume "i \<in> set [0..<n]"
      then have "Suc i \<le> n" by simp
      then have "Suc i * es \<le> n * es" by (rule mult_le_mono1)
      then have "off + 4 + i * es + es \<le> table_end p c" unfolding te by simp
      then show "off + 4 + i * es + es \<le> length p" using False len by linarith
    qed
    show ?thesis
    proof (cases "list_all (entry_valid p vcount fc c) [0..<n]")
      case bad: False
      then obtain E' M' S' where "entries_loop p off es vcount fc [0..<n] ([], 0, 0) = Inr (False, E', M', S')"
        using entries_loop_invalid [OF es rng, of vcount fc "[]" 0 0] unfolding c_def by blast
      moreover have "\<not> table_valid p decl_off vcount fc c"
        using bad by (simp add: table_valid_def c_def cnt)
      ultimately show ?thesis
        using False unfolding try_table_def Let_def te c_def [symmetric]
        by (simp add: closer_step_def)
    next
      case good: True
      then obtain M' S' where l: "entries_loop p off es vcount fc [0..<n] ([], 0, 0) =
          Inr (True, table_entries p c, M', S')" and pos: "0 < M'" "0 < S'"
        using entries_loop_valid [OF es rng, of vcount fc "[]" 0 0] cnt(2)
        unfolding c_def table_entries_def by (auto simp: cnt(1))
      have v: "table_valid p decl_off vcount fc c"
        using good False cnt by (simp add: table_valid_def c_def)
      have ne: "table_entries p c \<noteq> []"
        using cnt(2) by (intro table_entries_nonempty) (simp add: c_def cnt(1))
      have mc: "marked p (Some c) = AList.update ''_end_off'' (table_end p c)
          (hd (table_entries p c)) # tl (table_entries p c)"
        by (simp add: marked_def)
      have step: "try_table p decl_off vcount fc off n es (marked p held) =
          ebind (if marked p held = [] then Inr True
                 else case map_of (hd (marked p held)) ''_end_off'' of
                        None \<Rightarrow> Inl KeyError
                      | Some best_end \<Rightarrow>
                          Inr (decl_off - int (table_end p c) < decl_off - int best_end))
             (\<lambda>closer. if closer then Inr (marked p (Some c)) else Inr (marked p held))"
        using False pos ne unfolding try_table_def Let_def te [symmetric] mc
        by (simp add: l)
      show ?thesis
      proof (cases held)
        case None
        then show ?thesis
          using v step unfolding c_def [symmetric] by (simp add: closer_step_def marked_def)
      next
        case (Some h)
        have "marked p (Some h) \<noteq> []"
          "map_of (hd (marked p (Some h))) ''_end_off'' = Some (table_end p h)"
          using marked_Some [OF inv [OF Some]] by simp_all
        then show ?thesis
          using v step unfolding c_def [symmetric] Some by (simp add: closer_step_def)
      qed
    qed
  qed
qed


lemma closer_step_count:
  assumes "\<And>h. held = Some h \<Longrightarrow> 1 \<le> table_count p h"
    and "closer_step p decl_off vcount fc c held = Some h"
  shows "1 \<le> table_count p h"
  using assms by (auto simp: closer_step_def table_valid_def split: if_splits)

lemma scan_offset_ok:
  assumes off: "int (off + 4) \<le> decl_off"
    and len: "decl_off \<le> int (length p)"
    and inv: "\<And>h. held = Some h \<Longrightarrow> 1 \<le> table_count p h"
  shows "scan_offset p decl_off vcount fc off (marked p held) =
         Inr (marked p (fold (closer_step p decl_off vcount fc) [(off, 20), (off, 16)] held))"
proof -
  define n where "n = u32v p off"
  have r: "unpack_I p off = Inr n"
    unfolding n_def using off len by (intro unpack_I_ok) linarith
  have tc: "table_count p (off, 20) = n" "table_count p (off, 16) = n"
    by (simp_all add: table_count_def n_def)
  show ?thesis
  proof (cases "n = 0 \<or> n > 256")
    case True
    then have "\<not> table_valid p decl_off vcount fc (off, 20)"
      "\<not> table_valid p decl_off vcount fc (off, 16)"
      by (auto simp: table_valid_def tc)
    then show ?thesis
      using True by (simp add: scan_offset_def r closer_step_def)
  next
    case False
    then have n: "1 \<le> n" "n \<le> 256" by simp_all
    define h1 where "h1 = closer_step p decl_off vcount fc (off, 20) held"
    have t1: "try_table p decl_off vcount fc off n 20 (marked p held) = Inr (marked p h1)"
      unfolding h1_def using inv by (intro try_table_ok [OF _ tc(1) n len]) simp_all
    have inv1: "\<And>h. h1 = Some h \<Longrightarrow> 1 \<le> table_count p h"
      unfolding h1_def using closer_step_count [of held p] inv by blast
    have t2: "try_table p decl_off vcount fc off n 16 (marked p h1) =
        Inr (marked p (closer_step p decl_off vcount fc (off, 16) h1))"
      using inv1 by (intro try_table_ok [OF _ tc(2) n len]) simp_all
    show ?thesis
      using False by (simp add: scan_offset_def r t1 [unfolded h1_def] t2 [unfolded h1_def])
  qed
qed

lemma fold_closer_step_count:
  assumes "\<And>h. held = Some h \<Longrightarrow> 1 \<le> table_count p h"
    and "fold (closer_step p decl_off vcount fc) cs held = Some h"
  shows "1 \<le> table_count p h"
  using assms
proof (induction cs arbitrary: held)
  case Nil
  then show ?case by simp
next
  case (Cons c cs)
  show ?case
  proof (rule Cons.IH [of "closer_step p decl_off vcount fc c held"])
    fix h' assume "closer_step p decl_off vcount fc c held = Some h'"
    then show "1 \<le> table_count p h'"
      using closer_step_count [of held p decl_off vcount fc c h'] Cons.prems(1) by blast
  next
    show "fold (closer_step p decl_off vcount fc) cs (closer_step p decl_off vcount fc c held) = Some h"
      using Cons.prems(2) by simp
  qed
qed

lemma offsets_loop_ok:
  assumes len: "decl_off \<le> int (length p)"
  shows "\<forall>off\<in>set offs. int (off + 4) \<le> decl_off \<Longrightarrow>
     (\<And>h. held = Some h \<Longrightarrow> 1 \<le> table_count p h) \<Longrightarrow>
     offsets_loop p decl_off vcount fc offs (marked p held) =
       Inr (marked p (fold (closer_step p decl_off vcount fc)
                        (concat (map (\<lambda>off. [(off, 20), (off, 16)]) offs)) held))"
proof (induction offs arbitrary: held)
  case Nil
  then show ?case by simp
next
  case (Cons off offs)
  define h2 where "h2 = fold (closer_step p decl_off vcount fc) [(off, 20), (off, 16)] held"
  have s: "scan_offset p decl_off vcount fc off (marked p held) = Inr (marked p h2)"
    unfolding h2_def using Cons.prems by (intro scan_offset_ok [OF _ len]) simp_all
  have inv2: "\<And>h. h2 = Some h \<Longrightarrow> 1 \<le> table_count p h"
    unfolding h2_def using fold_closer_step_count [of held p] Cons.prems(2) by blast
  have "offsets_loop p decl_off vcount fc offs (marked p h2) =
       Inr (marked p (fold (closer_step p decl_off vcount fc)
                        (concat (map (\<lambda>off. [(off, 20), (off, 16)]) offs)) h2))"
    using Cons.prems(1) inv2 by (intro Cons.IH) simp_all
  then show ?case
    unfolding h2_def by (simp add: s [unfolded h2_def])
qed

lemma range4_mem:
  "off \<in> set (range4 a b) \<Longrightarrow> a \<le> off \<and> off < b \<and> (off - a) mod 4 = 0"
  by (auto simp: range4_def)

lemma subset_offsets_mem:
  assumes "off \<in> set (subset_offsets decl_off)"
  shows "int (off + 4) \<le> decl_off"
proof -
  have "off < nat (max 0 (decl_off - 4))"
    using assms range4_mem [of off "nat (max 0 (decl_off - 0x4000))" "nat (max 0 (decl_off - 4))"]
    by (auto simp: subset_offsets_def Let_def split: if_splits)
  then show ?thesis by linarith
qed


lemma unmark:
  assumes "1 \<le> table_count p h"
  shows "''_end_off'' \<in> fst ` set (hd (marked p (Some h)))"
    and "AList.delete ''_end_off'' (hd (marked p (Some h))) # tl (marked p (Some h)) = table_entries p h"
proof -
  obtain m st tc bv where f: "entry_fields p h 0 = (m, st, tc, bv)"
    by (cases "entry_fields p h 0") auto
  have hd: "hd (table_entries p h) = entry_dict (m, st, tc, bv)"
    using hd_table_entries [OF assms] f by simp
  show "''_end_off'' \<in> fst ` set (hd (marked p (Some h)))"
    by (simp add: marked_def hd entry_dict_def)
  have "AList.delete ''_end_off'' (hd (marked p (Some h))) = hd (table_entries p h)"
    by (simp add: marked_def hd entry_dict_def)
  then show "AList.delete ''_end_off'' (hd (marked p (Some h))) # tl (marked p (Some h)) = table_entries p h"
    using table_entries_nonempty [OF assms] by (simp add: marked_def)
qed

lemma find_subset_table_eq:
  assumes "decl_off \<le> int (length p)"
  shows "find_subset_table p decl_off vcount fc =
     Inr (case closest_table p decl_off vcount fc (candidates decl_off) of
            None \<Rightarrow> [] | Some c \<Rightarrow> table_entries p c)"
proof (cases "nat (max 0 (decl_off - 4)) \<le> nat (max 0 (decl_off - 0x4000))")
  case True
  then show ?thesis
    by (simp add: find_subset_table_def candidates_def subset_offsets_def closest_table_def)
next
  case False
  define held where "held = closest_table p decl_off vcount fc (candidates decl_off)"
  have so: "subset_offsets decl_off = range4 (nat (max 0 (decl_off - 0x4000))) (nat (max 0 (decl_off - 4)))"
    unfolding subset_offsets_def Let_def by (simp only: False if_False)
  have "offsets_loop p decl_off vcount fc (subset_offsets decl_off) (marked p None) = Inr (marked p held)"
    unfolding held_def closest_table_def candidates_def
    using subset_offsets_mem by (intro offsets_loop_ok [OF assms]) auto
  then have l: "offsets_loop p decl_off vcount fc
      (range4 (nat (max 0 (decl_off - 0x4000))) (nat (max 0 (decl_off - 4)))) [] = Inr (marked p held)"
    unfolding so by (simp add: marked_def)
  have f: "find_subset_table p decl_off vcount fc =
      (if marked p held \<noteq> [] \<and> ''_end_off'' \<in> fst ` set (hd (marked p held))
       then Inr (AList.delete ''_end_off'' (hd (marked p held)) # tl (marked p held))
       else Inr (marked p held))"
    unfolding find_subset_table_def Let_def by (simp only: False if_False l ebind_Inr)
  show ?thesis
  proof (cases held)
    case None
    then show ?thesis unfolding f held_def [symmetric] by (simp add: marked_def)
  next
    case (Some h)
    have c: "1 \<le> table_count p h"
      using fold_closer_step_count [of None p decl_off vcount fc "candidates decl_off" h] Some
      unfolding held_def closest_table_def by simp
    show ?thesis
      unfolding f held_def [symmetric] Some
      using unmark [OF c] marked_Some(1) [OF c] by simp
  qed
qed

text \<open>What the fold holds: nothing without a valid candidate, else the first candidate among
  the valid ones with the latest end.\<close>

lemma fold_closer_step_None:
  "fold (closer_step p d v fc) cs held = None \<longleftrightarrow>
     held = None \<and> (\<forall>c\<in>set cs. \<not> table_valid p d v fc c)"
  by (induction cs arbitrary: held) (auto simp: closer_step_def split: option.splits)

lemma fold_closer_step_Some:
  assumes "fold (closer_step p d v fc) cs held = Some h"
  shows "(held = Some h \<or> (h \<in> set cs \<and> table_valid p d v fc h))
       \<and> (\<forall>h'. held = Some h' \<longrightarrow> table_end p h' \<le> table_end p h)
       \<and> (\<forall>c\<in>set cs. table_valid p d v fc c \<longrightarrow> table_end p c \<le> table_end p h)"
  using assms
proof (induction cs arbitrary: held)
  case Nil
  then show ?case by simp
next
  case (Cons c cs)
  define held' where "held' = closer_step p d v fc c held"
  have ih: "(held' = Some h \<or> (h \<in> set cs \<and> table_valid p d v fc h))
       \<and> (\<forall>h'. held' = Some h' \<longrightarrow> table_end p h' \<le> table_end p h)
       \<and> (\<forall>c\<in>set cs. table_valid p d v fc c \<longrightarrow> table_end p c \<le> table_end p h)"
    using Cons.IH [of held'] Cons.prems by (simp add: held'_def)
  show ?case
  proof (cases "table_valid p d v fc c \<and> (case held of None \<Rightarrow> True | Some x \<Rightarrow> table_end p x < table_end p c)")
    case True
    then have "held' = Some c" by (simp add: held'_def closer_step_def)
    then show ?thesis using ih True by (auto split: option.splits)
  next
    case False
    then have "held' = held" unfolding held'_def closer_step_def by (simp only: if_False)
    then show ?thesis using ih False by (auto split: option.splits)
  qed
qed


lemma fold_closer_step_first:
  assumes "fold (closer_step p d v fc) cs held = Some h"
  shows "held = Some h \<or>
     (\<exists>pre post. cs = pre @ h # post \<and> table_valid p d v fc h
        \<and> (\<forall>c\<in>set pre. table_valid p d v fc c \<longrightarrow> table_end p c < table_end p h)
        \<and> (\<forall>h'. held = Some h' \<longrightarrow> table_end p h' < table_end p h))"
  using assms
proof (induction cs arbitrary: held)
  case Nil
  then show ?case by simp
next
  case (Cons c cs)
  define held' where "held' = closer_step p d v fc c held"
  have ih: "held' = Some h \<or>
     (\<exists>pre post. cs = pre @ h # post \<and> table_valid p d v fc h
        \<and> (\<forall>c\<in>set pre. table_valid p d v fc c \<longrightarrow> table_end p c < table_end p h)
        \<and> (\<forall>h'. held' = Some h' \<longrightarrow> table_end p h' < table_end p h))"
    using Cons.IH [of held'] Cons.prems by (simp add: held'_def)
  define taken where "taken = (table_valid p d v fc c \<and>
      (case held of None \<Rightarrow> True | Some x \<Rightarrow> table_end p x < table_end p c))"
  have hs: "held' = (if taken then Some c else held)"
    by (simp add: held'_def closer_step_def taken_def)
  from ih show ?case
  proof
    assume a: "held' = Some h"
    show ?thesis
    proof (cases taken)
      case True
      then have "h = c" using a hs by simp
      moreover have "table_valid p d v fc c"
        "\<forall>h'. held = Some h' \<longrightarrow> table_end p h' < table_end p c"
        using True by (auto simp: taken_def)
      ultimately have "c # cs = [] @ h # cs \<and> table_valid p d v fc h
        \<and> (\<forall>c\<in>set []. table_valid p d v fc c \<longrightarrow> table_end p c < table_end p h)
        \<and> (\<forall>h'. held = Some h' \<longrightarrow> table_end p h' < table_end p h)"
        by simp
      then show ?thesis by blast
    next
      case False
      then show ?thesis using a hs by simp
    qed
  next
    assume "\<exists>pre post. cs = pre @ h # post \<and> table_valid p d v fc h
        \<and> (\<forall>c\<in>set pre. table_valid p d v fc c \<longrightarrow> table_end p c < table_end p h)
        \<and> (\<forall>h'. held' = Some h' \<longrightarrow> table_end p h' < table_end p h)"
    then obtain pre post where b: "cs = pre @ h # post" "table_valid p d v fc h"
      "\<forall>c\<in>set pre. table_valid p d v fc c \<longrightarrow> table_end p c < table_end p h"
      "\<forall>h'. held' = Some h' \<longrightarrow> table_end p h' < table_end p h"
      by blast
    have c1: "table_valid p d v fc c \<longrightarrow> table_end p c < table_end p h"
    proof
      assume vc: "table_valid p d v fc c"
      show "table_end p c < table_end p h"
      proof (cases taken)
        case True
        then have "held' = Some c" using hs by simp
        then show ?thesis using b(4) by blast
      next
        case False
        then obtain x where x: "held = Some x" "\<not> table_end p x < table_end p c"
          using vc by (auto simp: taken_def split: option.splits)
        then have "held' = Some x" using hs False by simp
        then have "table_end p x < table_end p h" using b(4) by blast
        then show ?thesis using x(2) by simp
      qed
    qed
    have c2: "\<forall>h'. held = Some h' \<longrightarrow> table_end p h' < table_end p h"
    proof (intro allI impI)
      fix h' assume h': "held = Some h'"
      show "table_end p h' < table_end p h"
      proof (cases taken)
        case True
        then have "held' = Some c" "table_end p h' < table_end p c"
          using hs h' by (simp_all add: taken_def)
        then show ?thesis using b(4) by force
      next
        case False
        then have "held' = Some h'" using hs h' by simp
        then show ?thesis using b(4) by blast
      qed
    qed
    have "c # cs = (c # pre) @ h # post" using b(1) by simp
    moreover have "\<forall>x\<in>set (c # pre). table_valid p d v fc x \<longrightarrow> table_end p x < table_end p h"
      using b(3) c1 by simp
    ultimately show ?thesis using b(2) c2 by blast
  qed
qed

lemma range4_iff:
  "off \<in> set (range4 a b) \<longleftrightarrow> a \<le> off \<and> off < b \<and> (off - a) mod 4 = 0"
proof
  assume "off \<in> set (range4 a b)"
  then show "a \<le> off \<and> off < b \<and> (off - a) mod 4 = 0" by (rule range4_mem)
next
  assume h: "a \<le> off \<and> off < b \<and> (off - a) mod 4 = 0"
  then obtain k where k: "off - a = 4 * k" by (auto elim: dvdE simp: mod_eq_0_iff_dvd)
  then have "off = a + 4 * k" "k < (b - a + 3) div 4" using h by auto
  then show "off \<in> set (range4 a b)" by (auto simp: range4_def)
qed

lemma range4_sorted: "sorted_wrt (<) (range4 a b)"
  by (simp add: range4_def sorted_wrt_map sorted_wrt_upt [THEN sorted_wrt_mono_rel, rotated])


lemma candidates_mem:
  "c \<in> set (candidates d) \<longleftrightarrow> fst c \<in> set (subset_offsets d) \<and> (snd c = 20 \<or> snd c = 16)"
  by (cases c) (auto simp: candidates_def)

lemma subset_offsets_window:
  assumes "off \<in> set (subset_offsets d)"
  shows "d - 0x4000 \<le> int off" and "int off < d - 4"
  using assms range4_mem [of off "nat (max 0 (d - 0x4000))" "nat (max 0 (d - 4))"]
  by (auto simp: subset_offsets_def Let_def split: if_splits)

lemma cand_before:
  fixes c :: cand and o0 :: nat
  shows "sorted_wrt (<) offs \<Longrightarrow>
   concat (map (\<lambda>off. [(off, 20), (off, 16)]) offs) = pre @ c # post \<Longrightarrow>
   (o0, 20) \<in> set post \<Longrightarrow> fst c < o0"
proof (induction offs arbitrary: pre)
  case Nil
  then show ?case by simp
next
  case (Cons off offs)
  define rest where "rest = concat (map (\<lambda>off. [(off, 20::nat), (off, 16)]) offs)"
  have l: "(off, 20) # (off, 16) # rest = pre @ c # post"
    using Cons.prems(2) by (simp add: rest_def)
  have inrest: "\<And>x. (x, 20::nat) \<in> set rest \<Longrightarrow> off < x"
    using Cons.prems(1) by (auto simp: rest_def)
  show ?case
  proof (cases pre)
    case Nil
    then have "c = (off, 20)" "post = (off, 16) # rest" using l by simp_all
    then show ?thesis using Cons.prems(3) inrest by auto
  next
    case p1: (Cons x pre1)
    show ?thesis
    proof (cases pre1)
      case Nil
      then have "c = (off, 16)" "post = rest" using l p1 by simp_all
      then show ?thesis using Cons.prems(3) inrest by auto
    next
      case (Cons y pre2)
      then have "rest = pre2 @ c # post" using l p1 by simp
      then show ?thesis
        using Cons.IH [of pre2] Cons.prems(1,3) by (simp add: rest_def)
    qed
  qed
qed

lemma subset_offsets_sorted: "sorted_wrt (<) (subset_offsets d)"
  by (simp add: subset_offsets_def Let_def range4_sorted)

lemma find_subset_table_held:
  assumes "decl_off \<le> int (length p)"
  shows "(\<forall>c\<in>set (candidates decl_off). \<not> table_valid p decl_off vcount fc c)
           \<and> find_subset_table p decl_off vcount fc = Inr []
       \<or> (\<exists>pre c post. candidates decl_off = pre @ c # post
             \<and> table_valid p decl_off vcount fc c
             \<and> find_subset_table p decl_off vcount fc = Inr (table_entries p c)
             \<and> (\<forall>c'\<in>set (candidates decl_off). table_valid p decl_off vcount fc c'
                   \<longrightarrow> table_end p c' \<le> table_end p c)
             \<and> (\<forall>c'\<in>set pre. table_valid p decl_off vcount fc c'
                   \<longrightarrow> table_end p c' < table_end p c))"
proof (cases "closest_table p decl_off vcount fc (candidates decl_off)")
  case None
  then have "\<forall>c\<in>set (candidates decl_off). \<not> table_valid p decl_off vcount fc c"
    unfolding closest_table_def fold_closer_step_None by simp
  then show ?thesis
    using find_subset_table_eq [OF assms, of vcount fc] None by simp
next
  case (Some h)
  then have f: "fold (closer_step p decl_off vcount fc) (candidates decl_off) None = Some h"
    by (simp add: closest_table_def)
  obtain pre post where a: "candidates decl_off = pre @ h # post"
    "table_valid p decl_off vcount fc h"
    "\<forall>c\<in>set pre. table_valid p decl_off vcount fc c \<longrightarrow> table_end p c < table_end p h"
    using fold_closer_step_first [OF f] by auto
  have b: "\<forall>c\<in>set (candidates decl_off). table_valid p decl_off vcount fc c
      \<longrightarrow> table_end p c \<le> table_end p h"
    using fold_closer_step_Some [OF f] by blast
  have "find_subset_table p decl_off vcount fc = Inr (table_entries p h)"
    using find_subset_table_eq [OF assms, of vcount fc] Some by simp
  then show ?thesis using a b by blast
qed


lemma subset_offsets_small:
  "subset_offsets 24 = [0, 4, 8, 12, 16]"
  "subset_offsets 26 = [0, 4, 8, 12, 16, 20]"
  "subset_offsets 44 = [0, 4, 8, 12, 16, 20, 24, 28, 32, 36]"
  by (simp_all add: subset_offsets_def range4_def upt_rec)

lemma payload_big_tri_counts:
  "u32v payload_big_tri 0 = 1" "u32v payload_big_tri 4 = 0" "u32v payload_big_tri 8 = 0"
  "u32v payload_big_tri 12 = 100000001" "u32v payload_big_tri 16 = 0"
  "u32v payload_big_tri 20 = 3" "length payload_big_tri = 24"
  by (simp_all add: u32v_def payload_big_tri_def)

lemma payload_big_tri_invalid:
  assumes "c \<in> set (candidates 24)"
  shows "\<not> table_valid payload_big_tri 24 3 (Some 200000000) c"
proof -
  have o: "fst c = 0 \<or> fst c = 4 \<or> fst c = 8 \<or> fst c = 12 \<or> fst c = 16"
    and e: "snd c = 20 \<or> snd c = 16"
    using assms by (auto simp: candidates_mem subset_offsets_small)
  show ?thesis
  proof (cases "fst c = 0")
    case True
    have "\<not> entry_valid payload_big_tri 3 (Some 200000000) c 0"
      using e True by (auto simp: entry_valid_def entry_fields_def Let_def payload_big_tri_counts)
    then show ?thesis
      using True by (simp add: table_valid_def table_count_def payload_big_tri_counts)
  next
    case False
    then show ?thesis
      using o by (auto simp: table_valid_def table_count_def payload_big_tri_counts)
  qed
qed

text \<open>
  C4, the counterexamples. With the face count 200000000, the table of \<open>payload_big_tri\<close> is
  a candidate in the window and valid in the words of the specification, yet the result is
  empty: the entry has more than 100000000 triangles. And with a declaration offset beyond
  the end of the payload the function returns nothing: the first read raises.
\<close>

theorem find_subset_table_counterexample:
  "(0, 20) \<in> set (candidates 24) \<and>
   claimed_table_valid payload_big_tri 24 3 200000000 (0, 20) \<and>
   find_subset_table payload_big_tri 24 3 (Some 200000000) = Inr [] \<and>
   find_subset_table [] 8 0 (Some 0) = Inl StructError"
proof -
  have a: "(0, 20) \<in> set (candidates 24)"
    by (simp add: candidates_mem subset_offsets_small)
  have b: "claimed_table_valid payload_big_tri 24 3 200000000 (0, 20)"
    by (simp add: claimed_table_valid_def claimed_entry_valid_def table_count_def table_end_def
        entry_fields_def entry_vertex_count_def Let_def payload_big_tri_counts)
  have "int 24 \<le> int (length payload_big_tri)" by (simp add: payload_big_tri_counts)
  then have c: "find_subset_table payload_big_tri 24 3 (Some 200000000) = Inr []"
    using find_subset_table_held [of 24 payload_big_tri 3 "Some 200000000"]
      payload_big_tri_invalid by auto
  have d: "find_subset_table [] 8 0 (Some 0) = Inl StructError"
    by (simp add: find_subset_table_def range4_def scan_offset_def unpack_I_def unpack_from_def)
  show ?thesis using a b c d by simp
qed


text \<open>
  C4, amended: when the declaration offset is not beyond the end of the payload,
  \<open>find_subset_table\<close> returns a list. Without a valid candidate in the window it is empty.
  Otherwise it is the entries of a valid candidate (every entry with \<open>base_vertex <= vcount\<close>,
  \<open>0 < tri_count <= 100000000\<close>, \<open>start_tri <= 100000000\<close>,
  \<open>start_tri + tri_count <= face_count\<close> and, for entry size 20, \<open>vertex_count = vcount\<close>) that
  starts no more than \<open>0x4000\<close> bytes before the declaration offset and ends at or before it;
  no valid candidate ends later than it, and every valid candidate scanned before it ends
  strictly earlier.
\<close>

theorem find_subset_table_closest:
  assumes "decl_off \<le> int (length payload)"
  shows "\<exists>r. find_subset_table payload decl_off vcount face_count = Inr r \<and>
     (if list_ex (table_valid payload decl_off vcount face_count) (candidates decl_off)
      then \<exists>pre c post. candidates decl_off = pre @ c # post
             \<and> r = table_entries payload c \<and> r \<noteq> []
             \<and> table_valid payload decl_off vcount face_count c
             \<and> decl_off - 0x4000 \<le> int (fst c) \<and> int (table_end payload c) \<le> decl_off
             \<and> (\<forall>c'\<in>set (candidates decl_off).
                   table_valid payload decl_off vcount face_count c'
                   \<longrightarrow> table_end payload c' \<le> table_end payload c)
             \<and> (\<forall>c'\<in>set pre.
                   table_valid payload decl_off vcount face_count c'
                   \<longrightarrow> table_end payload c' < table_end payload c)
      else r = [])"
proof -
  from find_subset_table_held [OF assms, of vcount face_count] show ?thesis
  proof
    assume "(\<forall>c\<in>set (candidates decl_off). \<not> table_valid payload decl_off vcount face_count c)
           \<and> find_subset_table payload decl_off vcount face_count = Inr []"
    then show ?thesis by (simp add: list_ex_iff)
  next
    assume "\<exists>pre c post. candidates decl_off = pre @ c # post
             \<and> table_valid payload decl_off vcount face_count c
             \<and> find_subset_table payload decl_off vcount face_count = Inr (table_entries payload c)
             \<and> (\<forall>c'\<in>set (candidates decl_off). table_valid payload decl_off vcount face_count c'
                   \<longrightarrow> table_end payload c' \<le> table_end payload c)
             \<and> (\<forall>c'\<in>set pre. table_valid payload decl_off vcount face_count c'
                   \<longrightarrow> table_end payload c' < table_end payload c)"
    then obtain pre c post where a: "candidates decl_off = pre @ c # post"
      "table_valid payload decl_off vcount face_count c"
      "find_subset_table payload decl_off vcount face_count = Inr (table_entries payload c)"
      "\<forall>c'\<in>set (candidates decl_off). table_valid payload decl_off vcount face_count c'
          \<longrightarrow> table_end payload c' \<le> table_end payload c"
      "\<forall>c'\<in>set pre. table_valid payload decl_off vcount face_count c'
          \<longrightarrow> table_end payload c' < table_end payload c"
      by blast
    have mem: "c \<in> set (candidates decl_off)" using a(1) by simp
    then have ex: "list_ex (table_valid payload decl_off vcount face_count) (candidates decl_off)"
      using a(2) by (auto simp: list_ex_iff)
    have w: "decl_off - 0x4000 \<le> int (fst c)"
      using mem subset_offsets_window(1) [of "fst c" decl_off] by (simp add: candidates_mem)
    have e: "int (table_end payload c) \<le> decl_off" "table_entries payload c \<noteq> []"
      using a(2) table_entries_nonempty [of payload c] by (simp_all add: table_valid_def)
    have inner: "\<exists>pre ca post. candidates decl_off = pre @ ca # post
             \<and> table_entries payload c = table_entries payload ca \<and> table_entries payload c \<noteq> []
             \<and> table_valid payload decl_off vcount face_count ca
             \<and> decl_off - 0x4000 \<le> int (fst ca) \<and> int (table_end payload ca) \<le> decl_off
             \<and> (\<forall>c'\<in>set (candidates decl_off).
                   table_valid payload decl_off vcount face_count c'
                   \<longrightarrow> table_end payload c' \<le> table_end payload ca)
             \<and> (\<forall>c'\<in>set pre.
                   table_valid payload decl_off vcount face_count c'
                   \<longrightarrow> table_end payload c' < table_end payload ca)"
      by (intro exI [of _ pre] exI [of _ c] exI [of _ post] conjI a(1) a(2) a(4) a(5) w e refl)
    show ?thesis
      by (intro exI [of _ "table_entries payload c"] conjI a(3)) (simp only: ex if_True inner)
  qed
qed

lemma payload_two_subsets_reads:
  "length payload_two_subsets = 44"
  "u32v payload_two_subsets 0 = 2"
  "u32v payload_two_subsets 4 = 5" "u32v payload_two_subsets 8 = 0"
  "u32v payload_two_subsets 12 = 2" "u32v payload_two_subsets 16 = 0"
  "u32v payload_two_subsets 20 = 4"
  "u32v payload_two_subsets 24 = 6" "u32v payload_two_subsets 28 = 2"
  "u32v payload_two_subsets 32 = 1" "u32v payload_two_subsets 36 = 1"
  "u32v payload_two_subsets 40 = 4"
  by (simp_all add: u32v_def payload_two_subsets_def)

lemma payload_two_subsets_table:
  "table_count payload_two_subsets (0, 20) = 2"
  "table_end payload_two_subsets (0, 20) = 44"
  "list_all (entry_valid payload_two_subsets 4 (Some 3) (0, 20)) [0..<2]"
  "table_valid payload_two_subsets 44 4 (Some 3) (0, 20)"
  "(0, 20) \<in> set (candidates 44)"
proof -
  have u: "[0..<2] = [0, Suc 0]" by (simp add: upt_rec)
  show c: "table_count payload_two_subsets (0, 20) = 2"
    by (simp add: table_count_def payload_two_subsets_reads)
  show e: "table_end payload_two_subsets (0, 20) = 44"
    by (simp add: table_end_def c)
  show v: "list_all (entry_valid payload_two_subsets 4 (Some 3) (0, 20)) [0..<2]"
    unfolding u
    by (simp add: entry_valid_def entry_fields_def entry_vertex_count_def Let_def
        payload_two_subsets_reads)
  show "table_valid payload_two_subsets 44 4 (Some 3) (0, 20)"
    using v by (simp add: table_valid_def c e)
  show "(0, 20) \<in> set (candidates 44)"
    by (simp add: candidates_mem subset_offsets_small)
qed

theorem find_subset_table_closest_witness:
  "(44::int) \<le> int (length payload_two_subsets) \<and>
   list_ex (table_valid payload_two_subsets 44 4 (Some 3)) (candidates 44) \<and>
   (\<exists>r c. find_subset_table payload_two_subsets 44 4 (Some 3) = Inr r \<and> r \<noteq> []
      \<and> r = table_entries payload_two_subsets c \<and> table_end payload_two_subsets c = 44)"
proof -
  have l: "(44::int) \<le> int (length payload_two_subsets)"
    by (simp add: payload_two_subsets_reads)
  have ex: "list_ex (table_valid payload_two_subsets 44 4 (Some 3)) (candidates 44)"
    using payload_two_subsets_table(4,5) by (auto simp: list_ex_iff)
  have "\<exists>r. find_subset_table payload_two_subsets 44 4 (Some 3) = Inr r \<and>
     (\<exists>pre c post. candidates 44 = pre @ c # post
             \<and> r = table_entries payload_two_subsets c \<and> r \<noteq> []
             \<and> table_valid payload_two_subsets 44 4 (Some 3) c
             \<and> 44 - 0x4000 \<le> int (fst c) \<and> int (table_end payload_two_subsets c) \<le> 44
             \<and> (\<forall>c'\<in>set (candidates 44).
                   table_valid payload_two_subsets 44 4 (Some 3) c'
                   \<longrightarrow> table_end payload_two_subsets c' \<le> table_end payload_two_subsets c)
             \<and> (\<forall>c'\<in>set pre.
                   table_valid payload_two_subsets 44 4 (Some 3) c'
                   \<longrightarrow> table_end payload_two_subsets c' < table_end payload_two_subsets c))"
    using find_subset_table_closest [OF l, of 4 "Some 3"] ex by (simp only: if_True)
  then obtain r pre c post where r: "find_subset_table payload_two_subsets 44 4 (Some 3) = Inr r"
    "candidates 44 = pre @ c # post"
    "r = table_entries payload_two_subsets c" "r \<noteq> []"
    "int (table_end payload_two_subsets c) \<le> 44"
    "\<forall>c'\<in>set (candidates 44). table_valid payload_two_subsets 44 4 (Some 3) c'
        \<longrightarrow> table_end payload_two_subsets c' \<le> table_end payload_two_subsets c"
    by blast
  have "table_end payload_two_subsets (0, 20) \<le> table_end payload_two_subsets c"
    using r(6) payload_two_subsets_table(4,5) by blast
  then have "table_end payload_two_subsets c = 44"
    using r(5) payload_two_subsets_table(2) by simp
  then show ?thesis using l ex r(1,3,4) by blast
qed

lemma subset_offsets_iff:
  "off \<in> set (subset_offsets d) \<longleftrightarrow>
     d - 0x4000 \<le> int off \<and> int off < d - 4 \<and> (off - nat (max 0 (d - 0x4000))) mod 4 = 0"
  by (auto simp: subset_offsets_def Let_def range4_iff)

lemma table_before_decl_scanned:
  assumes e: "int (off + 4 + n * 20) = decl_off" and n: "1 \<le> n" "n \<le> 256"
    and g: "0x4000 \<le> decl_off \<or> decl_off mod 4 = 0"
  shows "(off, 20) \<in> set (candidates decl_off)"
proof -
  have w: "decl_off - 0x4000 \<le> int off" "int off < decl_off - 4" using e n by auto
  have "(off - nat (max 0 (decl_off - 0x4000))) mod 4 = 0"
  proof (cases "0x4000 \<le> decl_off")
    case True
    then have "nat (max 0 (decl_off - 0x4000)) = off + 4 + n * 20 - 0x4000" using e by auto
    moreover have "off - (off + 4 + n * 20 - 0x4000) = 0x4000 - 4 - n * 20" using n True e by auto
    moreover have "(0x4000 - 4 - n * 20) mod 4 = (0::nat)"
      using n by presburger
    ultimately show ?thesis by simp
  next
    case False
    then have "decl_off mod 4 = 0" using g by simp
    then have "int (off + 4 + n * 20) mod 4 = 0" using e by simp
    then have "(off + 4 + n * 20) mod 4 = 0" by presburger
    then have "off mod 4 = 0" by presburger
    moreover have "nat (max 0 (decl_off - 0x4000)) = 0" using False by simp
    ultimately show ?thesis by simp
  qed
  then show ?thesis using w by (simp add: candidates_mem subset_offsets_iff)
qed

lemma table_entries_20:
  "table_count p (off, 20) = n \<Longrightarrow> table_entries p (off, 20) =
     map (\<lambda>i. [(''material_id'', u32v p (off + 4 + i * 20)),
                (''start_tri'', u32v p (off + 4 + i * 20 + 4)),
                (''tri_count'', u32v p (off + 4 + i * 20 + 8)),
                (''base_vertex'', u32v p (off + 4 + i * 20 + 12))]) [0..<n]"
  by (simp add: table_entries_def entry_fields_def entry_dict_def Let_def)

lemma find_subset_table_first_latest:
  assumes l: "decl_off \<le> int (length p)"
    and c: "c \<in> set (candidates decl_off)" and s: "snd c = 20"
    and v: "table_valid p decl_off vcount fc c"
    and e: "int (table_end p c) = decl_off"
    and t: "\<forall>c'\<in>set (candidates decl_off). fst c' < fst c \<longrightarrow>
              \<not> (table_valid p decl_off vcount fc c' \<and> table_end p c' = table_end p c)"
  shows "find_subset_table p decl_off vcount fc = Inr (table_entries p c)"
proof -
  from find_subset_table_held [OF l, of vcount fc] v c
  obtain pre h post where h: "candidates decl_off = pre @ h # post"
    "table_valid p decl_off vcount fc h"
    "find_subset_table p decl_off vcount fc = Inr (table_entries p h)"
    "\<forall>c'\<in>set (candidates decl_off). table_valid p decl_off vcount fc c'
                   \<longrightarrow> table_end p c' \<le> table_end p h"
    "\<forall>c'\<in>set pre. table_valid p decl_off vcount fc c'
                   \<longrightarrow> table_end p c' < table_end p h"
    by blast
  have "table_end p c \<le> table_end p h" using h(4) c v by blast
  moreover have "int (table_end p h) \<le> decl_off" using h(2) by (simp add: table_valid_def)
  ultimately have eq: "table_end p h = table_end p c" using e by linarith
  have hin: "h \<in> set (candidates decl_off)" using h(1) by simp
  have "c \<in> set pre \<or> c = h \<or> c \<in> set post" using c h(1) by auto
  moreover have "c \<notin> set pre" using h(5) v eq by auto
  moreover have "c \<notin> set post"
  proof
    assume "c \<in> set post"
    then have "(fst c, 20) \<in> set post" using s by (metis prod.collapse)
    then have "fst h < fst c"
      using cand_before [OF subset_offsets_sorted, of decl_off pre h post "fst c"] h(1)
      by (simp add: candidates_def)
    then show False using t hin h(2) eq by blast
  qed
  ultimately show ?thesis using h(3) by simp
qed

text \<open>
  C5, amended: let a table of \<open>n\<close> 20-byte entries (\<open>1 <= n <= 256\<close>) stand at offset \<open>off\<close>
  of the payload and end exactly at the declaration offset, which is not beyond the end of
  the payload; let every entry be accepted by the checks of the code (vertex count equal to
  \<open>vcount\<close>, \<open>base_vertex <= vcount\<close>, \<open>start_tri <= 100000000\<close>, \<open>0 < tri_count <= 100000000\<close>,
  \<open>start_tri + tri_count <= face_count\<close> when a face count is given); let the table start on
  the grid of the scan (the declaration offset is at least \<open>0x4000\<close> or a multiple of 4); and
  let no candidate at a lower offset be valid and end at the declaration offset as well.
  Then \<open>find_subset_table\<close> returns the \<open>n\<close> entries in table order, each with the keys
  \<open>material_id\<close>, \<open>start_tri\<close>, \<open>tri_count\<close> and \<open>base_vertex\<close> and the values of the table; the
  vertex count of an entry is not part of the result.
\<close>

theorem find_subset_table_round_trip:
  assumes "int (off + 4 + n * 20) = decl_off" and "decl_off \<le> int (length payload)"
    and "u32v payload off = n" and "1 \<le> n" and "n \<le> 256"
    and "\<forall>i<n. entry_valid payload vcount face_count (off, 20) i"
    and "0x4000 \<le> decl_off \<or> decl_off mod 4 = 0"
    and "\<forall>c\<in>set (candidates decl_off). fst c < off \<longrightarrow>
           \<not> (table_valid payload decl_off vcount face_count c
               \<and> int (table_end payload c) = decl_off)"
  shows "find_subset_table payload decl_off vcount face_count =
     Inr (map (\<lambda>i. [(''material_id'', u32v payload (off + 4 + i * 20)),
                     (''start_tri'', u32v payload (off + 4 + i * 20 + 4)),
                     (''tri_count'', u32v payload (off + 4 + i * 20 + 8)),
                     (''base_vertex'', u32v payload (off + 4 + i * 20 + 12))]) [0..<n])"
proof -
  have k: "table_count payload (off, 20) = n" using assms(3) by (simp add: table_count_def)
  have e: "int (table_end payload (off, 20)) = decl_off"
    using assms(1) k by (simp add: table_end_def)
  have c: "(off, 20) \<in> set (candidates decl_off)"
    using assms(1,4,5,7) by (rule table_before_decl_scanned)
  have v: "table_valid payload decl_off vcount face_count (off, 20)"
    using assms(4,5,6) k e by (simp add: table_valid_def list_all_iff)
  have t: "\<forall>c'\<in>set (candidates decl_off). fst c' < fst (off, 20::nat) \<longrightarrow>
      \<not> (table_valid payload decl_off vcount face_count c'
           \<and> table_end payload c' = table_end payload (off, 20))"
    using assms(8) e by auto
  have "find_subset_table payload decl_off vcount face_count
      = Inr (table_entries payload (off, 20))"
    using assms(2) c _ v e t by (rule find_subset_table_first_latest) simp
  then show ?thesis by (simp only: table_entries_20 [OF k])
qed

lemma payload_unaligned_reads:
  "length payload_unaligned = 26"
  "u32v payload_unaligned 0 = 131071" "u32v payload_unaligned 4 = 0"
  "u32v payload_unaligned 8 = 0" "u32v payload_unaligned 12 = 65536"
  "u32v payload_unaligned 16 = 0" "u32v payload_unaligned 20 = 196608"
  "u32v payload_unaligned 2 = 1" "u32v payload_unaligned 6 = 0"
  "u32v payload_unaligned 10 = 0" "u32v payload_unaligned 14 = 1"
  "u32v payload_unaligned 18 = 0" "u32v payload_unaligned 22 = 3"
  by (simp_all add: u32v_def payload_unaligned_def)

lemma payload_unaligned_invalid:
  assumes "c \<in> set (candidates 26)"
  shows "\<not> table_valid payload_unaligned 26 3 (Some 1) c"
proof -
  have "fst c = 0 \<or> fst c = 4 \<or> fst c = 8 \<or> fst c = 12 \<or> fst c = 16 \<or> fst c = 20"
    using assms by (auto simp: candidates_mem subset_offsets_small)
  then show ?thesis
    by (auto simp: table_valid_def table_count_def payload_unaligned_reads)
qed

lemma payload_nested_tables_reads:
  "length payload_nested_tables = 44"
  "u32v payload_nested_tables 0 = 2"
  "u32v payload_nested_tables 4 = 7" "u32v payload_nested_tables 8 = 0"
  "u32v payload_nested_tables 12 = 1" "u32v payload_nested_tables 16 = 0"
  "u32v payload_nested_tables 20 = 1"
  "u32v payload_nested_tables 24 = 8" "u32v payload_nested_tables 28 = 0"
  "u32v payload_nested_tables 32 = 1" "u32v payload_nested_tables 36 = 0"
  "u32v payload_nested_tables 40 = 1"
  by (simp_all add: u32v_def payload_nested_tables_def)

lemma upt_2: "[0..<2] = [0, Suc 0]" "[0..<Suc 0] = [0]" "[0..<1] = [0]"
  by (simp_all add: upt_rec)

text \<open>
  C5, the counterexamples. The table of \<open>payload_unaligned\<close> is well formed, valid and ends at
  the declaration offset 26, but it starts at offset 2, which the scan from offset 0 in steps
  of 4 never reads: the result is empty. In \<open>payload_nested_tables\<close> the table of one entry at
  offset 20 is well formed, valid and ends at the declaration offset 44, but the table of two
  entries at offset 0 ends there as well and is scanned first: the result has two entries.
\<close>

theorem find_subset_table_round_trip_counterexample:
  "table_count payload_unaligned (2, 20) = 1 \<and> table_end payload_unaligned (2, 20) = 26 \<and>
   length payload_unaligned = 26 \<and>
   claimed_table_valid payload_unaligned 26 3 1 (2, 20) \<and>
   table_valid payload_unaligned 26 3 (Some 1) (2, 20) \<and>
   find_subset_table payload_unaligned 26 3 (Some 1) = Inr [] \<and>
   table_count payload_nested_tables (20, 20) = 1 \<and>
   table_end payload_nested_tables (20, 20) = 44 \<and>
   length payload_nested_tables = 44 \<and>
   (20, 20) \<in> set (candidates 44) \<and>
   claimed_table_valid payload_nested_tables 44 1 1 (20, 20) \<and>
   table_valid payload_nested_tables 44 1 (Some 1) (20, 20) \<and>
   table_entries payload_nested_tables (20, 20) =
     [[(''material_id'', 8), (''start_tri'', 0), (''tri_count'', 1), (''base_vertex'', 0)]] \<and>
   find_subset_table payload_nested_tables 44 1 (Some 1) =
     Inr [[(''material_id'', 7), (''start_tri'', 0), (''tri_count'', 1), (''base_vertex'', 0)],
          [(''material_id'', 8), (''start_tri'', 0), (''tri_count'', 1), (''base_vertex'', 0)]]"
proof -
  have a1: "table_count payload_unaligned (2, 20) = 1"
    by (simp add: table_count_def payload_unaligned_reads)
  have a2: "table_end payload_unaligned (2, 20) = 26"
    by (simp add: table_end_def a1)
  have a3: "claimed_table_valid payload_unaligned 26 3 1 (2, 20)"
    by (simp add: claimed_table_valid_def claimed_entry_valid_def a1 a2 upt_2
        entry_fields_def entry_vertex_count_def Let_def payload_unaligned_reads)
  have a4: "table_valid payload_unaligned 26 3 (Some 1) (2, 20)"
    by (simp add: table_valid_def entry_valid_def a1 a2 upt_2
        entry_fields_def entry_vertex_count_def Let_def payload_unaligned_reads)
  have "(26::int) \<le> int (length payload_unaligned)" by (simp add: payload_unaligned_reads)
  then have a5: "find_subset_table payload_unaligned 26 3 (Some 1) = Inr []"
    using find_subset_table_held [of 26 payload_unaligned 3 "Some 1"]
      payload_unaligned_invalid by auto
  have b1: "table_count payload_nested_tables (20, 20) = 1"
    by (simp add: table_count_def payload_nested_tables_reads)
  have b2: "table_end payload_nested_tables (20, 20) = 44"
    by (simp add: table_end_def b1)
  have b3: "(20, 20) \<in> set (candidates 44)"
    by (simp add: candidates_mem subset_offsets_small)
  have b4: "claimed_table_valid payload_nested_tables 44 1 1 (20, 20)"
    by (simp add: claimed_table_valid_def claimed_entry_valid_def b1 b2 upt_2
        entry_fields_def entry_vertex_count_def Let_def payload_nested_tables_reads)
  have b5: "table_valid payload_nested_tables 44 1 (Some 1) (20, 20)"
    by (simp add: table_valid_def entry_valid_def b1 b2 upt_2
        entry_fields_def entry_vertex_count_def Let_def payload_nested_tables_reads)
  have b6: "table_entries payload_nested_tables (20, 20) =
     [[(''material_id'', 8), (''start_tri'', 0), (''tri_count'', 1), (''base_vertex'', 0)]]"
    by (simp add: table_entries_20 [OF b1] upt_2 payload_nested_tables_reads)
  have c1: "table_count payload_nested_tables (0, 20) = 2"
    by (simp add: table_count_def payload_nested_tables_reads)
  have c2: "table_end payload_nested_tables (0, 20) = 44"
    by (simp add: table_end_def c1)
  have c3: "(0, 20) \<in> set (candidates 44)"
    by (simp add: candidates_mem subset_offsets_small)
  have c5: "table_valid payload_nested_tables 44 1 (Some 1) (0, 20)"
    by (simp add: table_valid_def entry_valid_def c1 c2 upt_2
        entry_fields_def entry_vertex_count_def Let_def payload_nested_tables_reads)
  have "find_subset_table payload_nested_tables 44 1 (Some 1)
      = Inr (table_entries payload_nested_tables (0, 20))"
    by (rule find_subset_table_first_latest [OF _ c3 _ c5])
      (simp_all add: payload_nested_tables_reads c2)
  then have b7: "find_subset_table payload_nested_tables 44 1 (Some 1) =
     Inr [[(''material_id'', 7), (''start_tri'', 0), (''tri_count'', 1), (''base_vertex'', 0)],
          [(''material_id'', 8), (''start_tri'', 0), (''tri_count'', 1), (''base_vertex'', 0)]]"
    by (simp add: table_entries_20 [OF c1] upt_2 payload_nested_tables_reads)
  show ?thesis
    by (intro conjI a1 a2 a3 a4 a5 b1 b2 b3 b4 b5 b6 b7 payload_unaligned_reads(1)
        payload_nested_tables_reads(1))
qed

theorem find_subset_table_round_trip_witness:
  "int (0 + 4 + 2 * 20) = 44 \<and> (44::int) \<le> int (length payload_two_subsets) \<and>
   u32v payload_two_subsets 0 = 2 \<and>
   list_all (entry_valid payload_two_subsets 4 (Some 3) (0, 20)) [0..<2] \<and>
   (44::int) mod 4 = 0 \<and>
   (\<nexists>c. c \<in> set (candidates 44) \<and> fst c < 0) \<and>
   find_subset_table payload_two_subsets 44 4 (Some 3) =
     Inr [[(''material_id'', 5), (''start_tri'', 0), (''tri_count'', 2), (''base_vertex'', 0)],
          [(''material_id'', 6), (''start_tri'', 2), (''tri_count'', 1), (''base_vertex'', 1)]]"
proof -
  have v: "list_all (entry_valid payload_two_subsets 4 (Some 3) (0, 20)) [0..<2]"
    by (rule payload_two_subsets_table(3))
  then have v': "\<forall>i<2. entry_valid payload_two_subsets 4 (Some 3) (0, 20) i"
    by (simp add: list_all_iff)
  have "find_subset_table payload_two_subsets 44 4 (Some 3) =
     Inr (map (\<lambda>i. [(''material_id'', u32v payload_two_subsets (0 + 4 + i * 20)),
                     (''start_tri'', u32v payload_two_subsets (0 + 4 + i * 20 + 4)),
                     (''tri_count'', u32v payload_two_subsets (0 + 4 + i * 20 + 8)),
                     (''base_vertex'', u32v payload_two_subsets (0 + 4 + i * 20 + 12))]) [0..<2])"
    using v' by (intro find_subset_table_round_trip)
      (simp_all add: payload_two_subsets_reads)
  then have r: "find_subset_table payload_two_subsets 44 4 (Some 3) =
     Inr [[(''material_id'', 5), (''start_tri'', 0), (''tri_count'', 2), (''base_vertex'', 0)],
          [(''material_id'', 6), (''start_tri'', 2), (''tri_count'', 1), (''base_vertex'', 1)]]"
    by (simp add: upt_2 payload_two_subsets_reads)
  show ?thesis using v r by (simp add: payload_two_subsets_reads)
qed
end
